theory Spec2Isabelle
  imports Complex_Main "HOL-Library.Product_Lexorder" "HOL-Library.Multiset"
begin

section \<open>Geometric primitives (src/utils/geometry.py)\<close>

text \<open>
  This section and the next read the arithmetic of the source on exact reals, the numbers
  of the specification's data model: \<open>+\<close>, \<open>-\<close> and \<open>*\<close> are exact, \<open>math.sqrt\<close> is
  \<open>sqrt\<close> and \<open>math.atan2\<close> is the function \<open>atan2\<close> below. The primitives whose result
  changes under the rounding, overflow and underflow of Python's floats are embedded a
  second time, on IEEE doubles, in a section of their own.
\<close>

text \<open>
  class \<open>Point2D\<close>: the attributes \<open>x\<close> and \<open>y\<close> are the fields \<open>p_x\<close> and \<open>p_y\<close>.
  \<open>__eq__\<close> compares both coordinates, which is equality of the record.
\<close>

record Point2D =
  p_x :: real
  p_y :: real

text \<open>\<open>Point2D.distance_to\<close>\<close>

definition distance_to :: "Point2D \<Rightarrow> Point2D \<Rightarrow> real" where
  "distance_to self other =
     (let dx = p_x self - p_x other;
          dy = p_y self - p_y other
      in sqrt (dx * dx + dy * dy))"

text \<open>
  \<open>orientation\<close> returns an integer code; its docstring names the codes:
  0 Collinear, 1 Clockwise, 2 Counterclockwise.
\<close>

definition Collinear :: int where "Collinear = 0"
definition Clockwise :: int where "Clockwise = 1"
definition CounterClockwise :: int where "CounterClockwise = 2"

definition orientation_val :: "Point2D \<Rightarrow> Point2D \<Rightarrow> Point2D \<Rightarrow> real" where
  "orientation_val p q r =
     (p_y q - p_y p) * (p_x r - p_x q) - (p_x q - p_x p) * (p_y r - p_y q)"

definition orientation :: "Point2D \<Rightarrow> Point2D \<Rightarrow> Point2D \<Rightarrow> int" where
  "orientation p q r =
     (let val = orientation_val p q r
      in if val = 0 then 0 else (if val > 0 then 1 else 2))"

definition ccw :: "Point2D \<Rightarrow> Point2D \<Rightarrow> Point2D \<Rightarrow> bool" where
  "ccw p1 p2 p3 \<longleftrightarrow> orientation p1 p2 p3 = 2"

text \<open>
  \<open>math.atan2 y x\<close> on the reals: the angle in \<open>(-pi, pi]\<close> of the vector \<open>(x, y)\<close>,
  and 0 at the origin, as the C library returns it.
\<close>

definition atan2 :: "real \<Rightarrow> real \<Rightarrow> real" where
  "atan2 y x =
     (if 0 < x then arctan (y / x)
      else if x < 0 then (if 0 \<le> y then arctan (y / x) + pi else arctan (y / x) - pi)
      else if 0 < y then pi / 2
      else if y < 0 then - (pi / 2)
      else 0)"

definition polar_angle :: "Point2D \<Rightarrow> Point2D \<Rightarrow> real" where
  "polar_angle origin point =
     (let dx = p_x point - p_x origin;
          dy = p_y point - p_y origin
      in atan2 dy dx)"

section \<open>The hull engine (src/convex_hull/convex_hull_2d.py)\<close>

text \<open>
  The two \<open>ValueError\<close>s the module raises itself, and the one the builtin \<open>min\<close>
  raises on an empty sequence.
\<close>

datatype error =
    TooFewPoints
  | UnknownAlgorithm string
  | MinOfEmpty

text \<open>
  class \<open>ConvexHull2D\<close>: the attributes \<open>self.points\<close> and \<open>self.hull\<close> (the field
  \<open>hull_pts\<close>, as \<open>hull\<close> is an operator of the library).
\<close>

record ConvexHull2D =
  points :: "Point2D list"
  hull_pts :: "Point2D list"

text \<open>\<open>ConvexHull2D.__init__\<close>\<close>

definition init :: "Point2D list \<Rightarrow> error + ConvexHull2D" where
  "init pts =
     (if length pts < 3 then Inl TooFewPoints
      else Inr \<lparr>points = pts, hull_pts = []\<rparr>)"

text \<open>
  The builtin \<open>min(xs, key=f)\<close>: the first element whose key is least; it raises on
  an empty sequence (\<open>None\<close> here).
\<close>

fun py_min_loop :: "('a \<Rightarrow> 'k::linorder) \<Rightarrow> 'a \<Rightarrow> 'a list \<Rightarrow> 'a" where
  "py_min_loop f best [] = best"
| "py_min_loop f best (p # ps) = py_min_loop f (if f p < f best then p else best) ps"

definition py_min :: "('a \<Rightarrow> 'k::linorder) \<Rightarrow> 'a list \<Rightarrow> 'a option" where
  "py_min f xs = (case xs of [] \<Rightarrow> None | p # ps \<Rightarrow> Some (py_min_loop f p ps))"

text \<open>
  \<open>ConvexHull2D._remove_same_angle_points\<close>: the loop over \<open>points[1:]\<close>, with the
  list \<open>filtered\<close> as accumulator. \<open>filtered[-1] = p\<close> overwrites the last element.
\<close>

fun remove_same_angle_loop :: "Point2D \<Rightarrow> Point2D list \<Rightarrow> Point2D list \<Rightarrow> Point2D list" where
  "remove_same_angle_loop origin filtered [] = filtered"
| "remove_same_angle_loop origin filtered (p # ps) =
     (let angle_prev = polar_angle origin (last filtered);
          angle_curr = polar_angle origin p
      in if \<bar>angle_prev - angle_curr\<bar> < 1 / 10 ^ 9 then
           (if distance_to origin p > distance_to origin (last filtered)
            then remove_same_angle_loop origin (filtered[length filtered - 1 := p]) ps
            else remove_same_angle_loop origin filtered ps)
         else remove_same_angle_loop origin (filtered @ [p]) ps)"

definition remove_same_angle_points :: "Point2D \<Rightarrow> Point2D list \<Rightarrow> Point2D list" where
  "remove_same_angle_points origin pts =
     (case pts of [] \<Rightarrow> [] | p # ps \<Rightarrow> remove_same_angle_loop origin [p] ps)"

text \<open>
  The inner \<open>while\<close> of the scan: pop the stack \<open>h\<close> (top at the end of the list) while
  it has more than one point and \<open>h[-2], h[-1], p\<close> is not a counter-clockwise turn.
\<close>

function pop_while :: "Point2D list \<Rightarrow> Point2D \<Rightarrow> Point2D list" where
  "pop_while h p =
     (if length h > 1 \<and> \<not> ccw (h ! (length h - 2)) (last h) p
      then pop_while (butlast h) p
      else h)"
  by pat_completeness auto
termination
  by (relation "measure (\<lambda>(h, p). length h)") auto

declare pop_while.simps [simp del]

text \<open>The \<open>for\<close> loop of the scan over \<open>filtered_points[2:]\<close>.\<close>

fun scan_loop :: "Point2D list \<Rightarrow> Point2D list \<Rightarrow> Point2D list" where
  "scan_loop h [] = h"
| "scan_loop h (p # ps) = scan_loop (pop_while h p @ [p]) ps"

text \<open>
  \<open>ConvexHull2D.graham_scan\<close> returns the hull and the engine after the call:
  \<open>self.hull\<close> is assigned on the scan path only, not on the early return.
\<close>

definition graham_scan :: "ConvexHull2D \<Rightarrow> error + (Point2D list \<times> ConvexHull2D)" where
  "graham_scan self =
     (case py_min (\<lambda>p. (p_y p, p_x p)) (points self) of
        None \<Rightarrow> Inl MinOfEmpty
      | Some start \<Rightarrow>
          (let other_points = filter (\<lambda>p. p \<noteq> start) (points self);
               sorted_points =
                 sort_key (\<lambda>p. (polar_angle start p, distance_to start p)) other_points;
               filtered_points = remove_same_angle_points start sorted_points
           in if length filtered_points < 2 then Inr (start # filtered_points, self)
              else
                (let h = scan_loop [start, filtered_points ! 0, filtered_points ! 1]
                           (drop 2 filtered_points)
                 in Inr (h, self\<lparr>hull_pts := h\<rparr>))))"

text \<open>
  \<open>ConvexHull2D.compute_hull\<close>: \<open>graham_scan\<close> under the \<open>measure_time\<close> decorator, which
  prints the elapsed time and returns the result unchanged.
\<close>

definition compute_hull :: "ConvexHull2D \<Rightarrow> error + (Point2D list \<times> ConvexHull2D)" where
  "compute_hull self = graham_scan self"



text \<open>\<open>quick_hull\<close>: the body is \<open>pass\<close>, so the call returns Python's \<open>None\<close>.\<close>

definition quick_hull :: "Point2D list \<Rightarrow> Point2D list option" where
  "quick_hull pts = None"

text \<open>
  \<open>compute_convex_hull\<close>: the result is a list, or \<open>None\<close> where the Python returns
  \<open>None\<close>.
\<close>

definition compute_convex_hull :: "Point2D list \<Rightarrow> string \<Rightarrow> error + Point2D list option" where
  "compute_convex_hull pts algorithm =
     (if algorithm = ''graham'' then
        (case init pts of
           Inl e \<Rightarrow> Inl e
         | Inr ch \<Rightarrow> (case compute_hull ch of Inl e \<Rightarrow> Inl e | Inr (h, ch') \<Rightarrow> Inr (Some h)))
      else if algorithm = ''quick'' then Inr (quick_hull pts)
      else Inl (UnknownAlgorithm algorithm))"

section \<open>Notions used in the statements and proofs\<close>

text \<open>The constructor call \<open>Point2D(a, b)\<close>.\<close>

definition pt :: "real \<Rightarrow> real \<Rightarrow> Point2D" where
  "pt a b = \<lparr>p_x = a, p_y = b\<rparr>"

text \<open>
  The vector \<open>(x, y)\<close> points into the half plane above the origin, or along the positive
  x axis: where every point other than the pivot lies, seen from the pivot.
\<close>

definition upper :: "real \<Rightarrow> real \<Rightarrow> bool" where
  "upper x y \<longleftrightarrow> 0 < y \<or> (y = 0 \<and> 0 < x)"

definition above :: "Point2D \<Rightarrow> Point2D \<Rightarrow> bool" where
  "above s p \<longleftrightarrow> p_y s < p_y p \<or> (p_y s = p_y p \<and> p_x s < p_x p)"

text \<open>
  The values \<open>start\<close> and \<open>filtered_points\<close> of \<open>graham_scan\<close> as functions of
  \<open>self.points\<close> (lemmas \<open>py_min_pivot\<close>, \<open>graham_scan_degenerate\<close> and
  \<open>graham_scan_main\<close> tie them to the code).
\<close>

definition pivot :: "Point2D list \<Rightarrow> Point2D" where
  "pivot pts = py_min_loop (\<lambda>p. (p_y p, p_x p)) (hd pts) (tl pts)"

definition candidates :: "Point2D list \<Rightarrow> Point2D list" where
  "candidates pts =
     remove_same_angle_points (pivot pts)
       (sort_key (\<lambda>p. (polar_angle (pivot pts) p, distance_to (pivot pts) p))
          (filter (\<lambda>p. p \<noteq> pivot pts) pts))"

definition angle_lt :: "Point2D \<Rightarrow> Point2D \<Rightarrow> Point2D \<Rightarrow> bool" where
  "angle_lt s a b \<longleftrightarrow> polar_angle s a < polar_angle s b"

text \<open>Every three consecutive points of the stack turn counter-clockwise.\<close>

definition turns :: "Point2D list \<Rightarrow> bool" where
  "turns h \<longleftrightarrow> (\<forall>i. i + 2 < length h \<longrightarrow> ccw (h ! i) (h ! (i + 1)) (h ! (i + 2)))"

text \<open>The inputs of the concrete evaluations: a triangle, and the square of the
  specification's first scenario with its centre.\<close>

definition triangle :: "Point2D list" where
  "triangle = [pt 0 0, pt 1 0, pt 0 1]"

definition square :: "Point2D list" where
  "square = [pt 5 5, pt 0 10, pt 10 10, pt 10 0, pt 0 0]"

definition square_hull :: "Point2D list" where
  "square_hull = [pt 0 0, pt 10 0, pt 10 10, pt 0 10]"

text \<open>
  All points of the list lie on one line: every triple of them is collinear for
  \<open>orientation\<close>.
\<close>

definition all_collinear :: "Point2D list \<Rightarrow> bool" where
  "all_collinear pts \<longleftrightarrow>
     (\<forall>p\<in>set pts. \<forall>q\<in>set pts. \<forall>r\<in>set pts. orientation p q r = Collinear)"

text \<open>
  The point \<open>p\<close> lies on the closed segment from \<open>a\<close> to \<open>b\<close>: collinear with the two, and
  inside their bounding box.
\<close>

definition on_segment :: "Point2D \<Rightarrow> Point2D \<Rightarrow> Point2D \<Rightarrow> bool" where
  "on_segment a b p \<longleftrightarrow>
     orientation a b p = Collinear
     \<and> min (p_x a) (p_x b) \<le> p_x p \<and> p_x p \<le> max (p_x a) (p_x b)
     \<and> min (p_y a) (p_y b) \<le> p_y p \<and> p_y p \<le> max (p_y a) (p_y b)"

text \<open>Points on the diagonal, one of them twice, and a point three times.\<close>

definition diagonal :: "Point2D list" where
  "diagonal = [pt 1 1, pt 2 2, pt 0 0, pt 1 1]"

definition same_point :: "Point2D list" where
  "same_point = [pt 1 1, pt 1 1, pt 1 1]"



section \<open>The primitives on IEEE doubles\<close>

text \<open>
  The sections above read the arithmetic of the source on exact reals. A Python \<open>float\<close> is
  an IEEE 754 binary64 number, and rounding, overflow and underflow change what
  \<open>orientation\<close> and \<open>distance_to\<close> return. This section embeds the two, and \<open>ccw\<close>, on
  doubles: a finite value (\<open>Fin 0\<close> is \<open>+0.0\<close>), \<open>-0.0\<close>, the two infinities and NaN.
\<close>

datatype double = Fin real | NegZero | PInf | NInf | NaN

text \<open>
  Rounding to the nearest double, ties to even: \<open>binade\<close> is the exponent of the binade of
  \<open>r\<close> (at least that of the subnormal numbers), the doubles of the binade are the multiples
  of \<open>2 ^ (binade r - 52)\<close>, and a result of magnitude \<open>2 ^ 1024\<close> or more overflows to an
  infinity. A result that rounds to zero keeps the sign of \<open>r\<close>.
\<close>

definition pow2 :: "int \<Rightarrow> real" where
  "pow2 k = (if 0 \<le> k then 2 ^ nat k else 1 / 2 ^ nat (- k))"

definition rint :: "real \<Rightarrow> int" where
  "rint x =
     (let f = \<lfloor>x\<rfloor>; d = x - of_int f
      in if d < 1 / 2 then f else if 1 / 2 < d then f + 1 else if even f then f else f + 1)"

definition binade :: "real \<Rightarrow> int" where
  "binade r = max \<lfloor>log 2 \<bar>r\<bar>\<rfloor> (- 1022)"

definition nearest :: "real \<Rightarrow> real" where
  "nearest r = (let q = pow2 (binade r - 52) in of_int (rint (r / q)) * q)"

definition rnd :: "real \<Rightarrow> double" where
  "rnd r =
     (let v = nearest r
      in if 2 ^ 1024 \<le> \<bar>v\<bar> then (if 0 < r then PInf else NInf)
         else if v = 0 then (if 0 \<le> r then Fin 0 else NegZero)
         else Fin v)"

text \<open>
  The operations of a Python \<open>float\<close>: \<open>-x\<close>, \<open>x + y\<close>, \<open>x - y\<close> (which is \<open>x + (-y)\<close>) and
  \<open>x * y\<close>, with the IEEE rules for zeros, infinities and NaN.
\<close>

fun neg_d :: "double \<Rightarrow> double" where
  "neg_d (Fin x) = (if x = 0 then NegZero else Fin (- x))"
| "neg_d NegZero = Fin 0"
| "neg_d PInf = NInf"
| "neg_d NInf = PInf"
| "neg_d NaN = NaN"

fun add_d :: "double \<Rightarrow> double \<Rightarrow> double" where
  "add_d NaN b = NaN"
| "add_d a NaN = NaN"
| "add_d PInf NInf = NaN"
| "add_d NInf PInf = NaN"
| "add_d PInf b = PInf"
| "add_d a PInf = PInf"
| "add_d NInf b = NInf"
| "add_d a NInf = NInf"
| "add_d NegZero b = b"
| "add_d a NegZero = a"
| "add_d (Fin x) (Fin y) = (if x + y = 0 then Fin 0 else rnd (x + y))"

definition sub_d :: "double \<Rightarrow> double \<Rightarrow> double" where
  "sub_d a b = add_d a (neg_d b)"

fun is_zero :: "double \<Rightarrow> bool" where
  "is_zero (Fin x) = (x = 0)"
| "is_zero NegZero = True"
| "is_zero a = False"

fun is_inf :: "double \<Rightarrow> bool" where
  "is_inf PInf = True"
| "is_inf NInf = True"
| "is_inf a = False"

fun sign_bit :: "double \<Rightarrow> bool" where
  "sign_bit (Fin x) = (x < 0)"
| "sign_bit NegZero = True"
| "sign_bit NInf = True"
| "sign_bit a = False"

fun val_d :: "double \<Rightarrow> real" where
  "val_d (Fin x) = x"
| "val_d a = 0"

definition mul_d :: "double \<Rightarrow> double \<Rightarrow> double" where
  "mul_d a b =
     (if a = NaN \<or> b = NaN then NaN
      else if (is_zero a \<and> is_inf b) \<or> (is_inf a \<and> is_zero b) then NaN
      else if is_inf a \<or> is_inf b then (if sign_bit a \<noteq> sign_bit b then NInf else PInf)
      else if is_zero a \<or> is_zero b then (if sign_bit a \<noteq> sign_bit b then NegZero else Fin 0)
      else rnd (val_d a * val_d b))"

text \<open>The comparisons \<open><\<close>, \<open>>\<close> and \<open>==\<close>: false on NaN, and \<open>-0.0 == 0.0\<close>.\<close>

fun lt_d :: "double \<Rightarrow> double \<Rightarrow> bool" where
  "lt_d NaN b = False"
| "lt_d a NaN = False"
| "lt_d a NInf = False"
| "lt_d NInf b = True"
| "lt_d PInf b = False"
| "lt_d a PInf = True"
| "lt_d a b = (val_d a < val_d b)"

definition gt_d :: "double \<Rightarrow> double \<Rightarrow> bool" where
  "gt_d a b = lt_d b a"

fun eq_d :: "double \<Rightarrow> double \<Rightarrow> bool" where
  "eq_d NaN b = False"
| "eq_d a NaN = False"
| "eq_d PInf b = (b = PInf)"
| "eq_d a PInf = False"
| "eq_d NInf b = (b = NInf)"
| "eq_d a NInf = False"
| "eq_d a b = (val_d a = val_d b)"

text \<open>
  \<open>math.sqrt\<close>: correctly rounded; it raises \<open>ValueError\<close> on a negative argument
  (\<open>None\<close> here).
\<close>

fun math_sqrt :: "double \<Rightarrow> double option" where
  "math_sqrt NaN = Some NaN"
| "math_sqrt PInf = Some PInf"
| "math_sqrt NInf = None"
| "math_sqrt NegZero = Some NegZero"
| "math_sqrt (Fin x) = (if x < 0 then None else Some (rnd (sqrt x)))"

text \<open>\<open>Point2D\<close> with double coordinates, and \<open>Point2D(a, b)\<close> for finite \<open>a\<close> and \<open>b\<close>.\<close>

record Point2D_f64 =
  f_x :: double
  f_y :: double

definition fpt :: "real \<Rightarrow> real \<Rightarrow> Point2D_f64" where
  "fpt a b = \<lparr>f_x = Fin a, f_y = Fin b\<rparr>"

text \<open>\<open>Point2D.distance_to\<close>, \<open>orientation\<close> and \<open>ccw\<close> on doubles.\<close>

definition distance_to_f64 :: "Point2D_f64 \<Rightarrow> Point2D_f64 \<Rightarrow> double option" where
  "distance_to_f64 self other =
     (let dx = sub_d (f_x self) (f_x other);
          dy = sub_d (f_y self) (f_y other)
      in math_sqrt (add_d (mul_d dx dx) (mul_d dy dy)))"

definition orientation_f64 :: "Point2D_f64 \<Rightarrow> Point2D_f64 \<Rightarrow> Point2D_f64 \<Rightarrow> int" where
  "orientation_f64 p q r =
     (let val = sub_d (mul_d (sub_d (f_y q) (f_y p)) (sub_d (f_x r) (f_x q)))
                      (mul_d (sub_d (f_x q) (f_x p)) (sub_d (f_y r) (f_y q)))
      in if eq_d val (Fin 0) then 0 else (if gt_d val (Fin 0) then 1 else 2))"

definition ccw_f64 :: "Point2D_f64 \<Rightarrow> Point2D_f64 \<Rightarrow> Point2D_f64 \<Rightarrow> bool" where
  "ccw_f64 p1 p2 p3 \<longleftrightarrow> orientation_f64 p1 p2 p3 = 2"

section \<open>Orientation in exact arithmetic\<close>

text \<open>
  Where no operation rounds or overflows, \<open>orientation p q r\<close> takes the sign of
  \<open>(q.y - p.y) * (r.x - q.x) - (q.x - p.x) * (r.y - q.y)\<close>: zero is Collinear, positive is
  Clockwise, negative is CounterClockwise; and \<open>ccw p1 p2 p3\<close> holds exactly when
  \<open>orientation p1 p2 p3\<close> is CounterClockwise.
\<close>

theorem orientation_classifies:
  fixes p q r :: Point2D
  defines "v \<equiv> (p_y q - p_y p) * (p_x r - p_x q) - (p_x q - p_x p) * (p_y r - p_y q)"
  shows "(orientation p q r = Collinear \<longleftrightarrow> v = 0)
       \<and> (orientation p q r = Clockwise \<longleftrightarrow> 0 < v)
       \<and> (orientation p q r = CounterClockwise \<longleftrightarrow> v < 0)
       \<and> (ccw p q r \<longleftrightarrow> orientation p q r = CounterClockwise)"
  unfolding v_def
  by (auto simp: orientation_def orientation_val_def ccw_def Collinear_def Clockwise_def
      CounterClockwise_def Let_def)

section \<open>Construction and dispatch\<close>

lemma init_ok: "3 \<le> length pts \<Longrightarrow> init pts = Inr \<lparr>points = pts, hull_pts = []\<rparr>"
  by (simp add: init_def)

lemma compute_convex_hull_unknown:
  "algorithm \<noteq> ''graham'' \<Longrightarrow> algorithm \<noteq> ''quick'' \<Longrightarrow>
   compute_convex_hull pts algorithm = Inl (UnknownAlgorithm algorithm)"
  by (simp add: compute_convex_hull_def)

text \<open>
  C1: called with the identifier \<open>quick\<close>, \<open>compute_convex_hull\<close> raises nothing: on
  every point list it returns \<open>None\<close>, the value of the empty body of \<open>quick_hull\<close>.
\<close>

theorem compute_convex_hull_quick: "compute_convex_hull pts ''quick'' = Inr None"
  by (simp add: compute_convex_hull_def quick_hull_def)

section \<open>The angle around the pivot and the turn test\<close>

lemma atan2_pos_x: "0 < x \<Longrightarrow> 0 \<le> y \<Longrightarrow> 0 \<le> atan2 y x \<and> atan2 y x < pi / 2"
  unfolding atan2_def using arctan_ubound[of "y/x"] by (auto)

lemma atan2_zero_x: "0 < y \<Longrightarrow> atan2 y 0 = pi / 2"
  unfolding atan2_def by simp

lemma atan2_neg_x: "x < 0 \<Longrightarrow> 0 < y \<Longrightarrow> pi / 2 < atan2 y x \<and> atan2 y x < pi"
  unfolding atan2_def using arctan_lbound[of "y/x"] arctan_ubound[of "y/x"]
  by (auto simp: divide_less_0_iff)

lemma frac_less_same_sign:
  fixes x1 x2 y1 y2 :: real
  assumes "0 < x1 * x2"
  shows "y1 / x1 < y2 / x2 \<longleftrightarrow> 0 < x1 * y2 - y1 * x2"
proof -
  have nz: "x1 \<noteq> 0" "x2 \<noteq> 0" using assms by auto
  have "y1 / x1 < y2 / x2 \<longleftrightarrow> (y1 / x1) * (x1 * x2) < (y2 / x2) * (x1 * x2)"
    using assms by (simp only: mult_less_cancel_right_pos)
  also have "(y1 / x1) * (x1 * x2) = y1 * x2" using nz by simp
  also have "(y2 / x2) * (x1 * x2) = x1 * y2" using nz by simp
  finally show ?thesis by simp
qed

lemma atan2_less_iff_cross:
  assumes "upper x1 y1" "upper x2 y2"
  shows "atan2 y1 x1 < atan2 y2 x2 \<longleftrightarrow> 0 < x1 * y2 - y1 * x2"
proof -
  have y: "0 \<le> y1" "0 \<le> y2" using assms by (auto simp: upper_def)
  consider (pp) "0 < x1" "0 < x2" | (pz) "0 < x1" "x2 = 0" | (pn) "0 < x1" "x2 < 0"
    | (zp) "x1 = 0" "0 < x2" | (zz) "x1 = 0" "x2 = 0" | (zn) "x1 = 0" "x2 < 0"
    | (np) "x1 < 0" "0 < x2" | (nz) "x1 < 0" "x2 = 0" | (nn) "x1 < 0" "x2 < 0"
    by linarith
  then show ?thesis
  proof cases
    case pp
    then have "0 < x1 * x2" by simp
    from frac_less_same_sign[OF this, of y1 y2] pp show ?thesis
      by (simp add: atan2_def arctan_less_iff)
  next
    case pz
    then have y2: "0 < y2" using assms by (auto simp: upper_def)
    then have "0 < x1 * y2 - y1 * x2" using pz by simp
    moreover have "atan2 y1 x1 < atan2 y2 x2"
      using pz atan2_pos_x[of x1 y1] y atan2_zero_x[of y2] y2 by simp
    ultimately show ?thesis by blast
  next
    case pn
    then have y2: "0 < y2" using assms by (auto simp: upper_def)
    have "0 \<le> y1 * (- x2)" using y pn by (intro mult_nonneg_nonneg) auto
    moreover have "0 < x1 * y2" using pn y2 by simp
    ultimately have "0 < x1 * y2 - y1 * x2" by simp
    moreover have "atan2 y1 x1 < atan2 y2 x2"
      using pn atan2_pos_x[of x1 y1] y atan2_neg_x[of x2 y2] y2 by simp
    ultimately show ?thesis by blast
  next
    case zp
    then have y1: "0 < y1" using assms by (auto simp: upper_def)
    then have "\<not> 0 < x1 * y2 - y1 * x2" using zp by (simp add: not_less mult_nonneg_nonneg)
    moreover have "\<not> atan2 y1 x1 < atan2 y2 x2"
      using zp atan2_pos_x[of x2 y2] y atan2_zero_x[of y1] y1 by simp
    ultimately show ?thesis by blast
  next
    case zz
    then have "0 < y1" "0 < y2" using assms by (auto simp: upper_def)
    then show ?thesis using zz by (simp add: atan2_zero_x)
  next
    case zn
    then have y1: "0 < y1" and y2: "0 < y2" using assms by (auto simp: upper_def)
    have "0 < y1 * (- x2)" using y1 zn by (intro mult_pos_pos) auto
    then have "0 < x1 * y2 - y1 * x2" using zn by simp
    moreover have "atan2 y1 x1 < atan2 y2 x2"
      using zn atan2_neg_x[of x2 y2] y2 atan2_zero_x[of y1] y1 by simp
    ultimately show ?thesis by blast
  next
    case np
    then have y1: "0 < y1" using assms by (auto simp: upper_def)
    have "0 \<le> (- x1) * y2" using y np by (intro mult_nonneg_nonneg) auto
    moreover have "0 < y1 * x2" using np y1 by simp
    ultimately have "\<not> 0 < x1 * y2 - y1 * x2" by simp
    moreover have "\<not> atan2 y1 x1 < atan2 y2 x2"
      using np atan2_pos_x[of x2 y2] y atan2_neg_x[of x1 y1] y1 by simp
    ultimately show ?thesis by blast
  next
    case nz
    then have y1: "0 < y1" and y2: "0 < y2" using assms by (auto simp: upper_def)
    have "0 < (- x1) * y2" using y2 nz by (intro mult_pos_pos) auto
    then have "\<not> 0 < x1 * y2 - y1 * x2" using nz by simp
    moreover have "\<not> atan2 y1 x1 < atan2 y2 x2"
      using nz atan2_neg_x[of x1 y1] y1 atan2_zero_x[of y2] y2 by simp
    ultimately show ?thesis by blast
  next
    case nn
    then have y1: "0 < y1" and y2: "0 < y2" using assms by (auto simp: upper_def)
    have "0 < x1 * x2" using nn by (simp add: mult_neg_neg)
    from frac_less_same_sign[OF this, of y1 y2] nn y1 y2 show ?thesis
      by (simp add: atan2_def arctan_less_iff)
  qed
qed

section \<open>The minimum, the sort and the collapse of equal angles\<close>

lemma py_min_loop_mem: "py_min_loop f b ps \<in> set (b # ps)"
  by (induction ps arbitrary: b) auto

lemma py_min_loop_le: "p \<in> set (b # ps) \<Longrightarrow> f (py_min_loop f b ps) \<le> f p"
proof (induction ps arbitrary: b p)
  case Nil
  then show ?case by simp
next
  case (Cons q ps)
  have step: "f (py_min_loop f (if f q < f b then q else b) ps) \<le> f (if f q < f b then q else b)"
    using Cons.IH[of "if f q < f b then q else b" "if f q < f b then q else b"] by simp
  from Cons.prems consider "p = b" | "p = q" | "p \<in> set ps" by auto
  then show ?case
  proof cases
    case 1
    then show ?thesis using step by (auto split: if_splits)
  next
    case 2
    then show ?thesis using step by (auto split: if_splits)
  next
    case 3
    then show ?thesis using Cons.IH[of p "if f q < f b then q else b"] by simp
  qed
qed

lemma update_last: "xs \<noteq> [] \<Longrightarrow> xs[length xs - Suc 0 := p] = butlast xs @ [p]"
  by (induction xs rule: rev_induct) (auto simp: list_update_append)

lemma remove_same_angle_loop_set:
  "filtered \<noteq> [] \<Longrightarrow> set (remove_same_angle_loop origin filtered ps) \<subseteq> set filtered \<union> set ps"
proof (induction ps arbitrary: filtered)
  case Nil
  then show ?case by simp
next
  case (Cons p ps)
  have a: "butlast filtered @ [p] \<noteq> []" "filtered @ [p] \<noteq> []" by simp_all
  have b: "set (butlast filtered) \<subseteq> set filtered" by (meson in_set_butlastD subsetI)
  show ?case
    using Cons.IH[OF a(1)] Cons.IH[OF a(2)] Cons.IH[OF Cons.prems] b
    by (auto simp: Let_def update_last[OF Cons.prems])
qed

lemma remove_same_angle_points_set: "set (remove_same_angle_points origin pts) \<subseteq> set pts"
  using remove_same_angle_loop_set[of "[hd pts]" origin "tl pts"]
  by (cases pts) (auto simp: remove_same_angle_points_def)

lemma remove_same_angle_loop_strict:
  assumes "filtered \<noteq> []"
    and "sorted_wrt (\<lambda>a b. polar_angle origin a < polar_angle origin b) filtered"
    and "sorted (map (polar_angle origin) ps)"
    and "\<forall>p\<in>set ps. polar_angle origin (last filtered) \<le> polar_angle origin p"
  shows "sorted_wrt (\<lambda>a b. polar_angle origin a < polar_angle origin b)
           (remove_same_angle_loop origin filtered ps)"
  using assms
proof (induction ps arbitrary: filtered)
  case Nil
  then show ?case by simp
next
  case (Cons p ps)
  let ?A = "polar_angle origin"
  from Cons.prems(1) obtain ys y where f: "filtered = ys @ [y]"
    by (cases filtered rule: rev_cases) auto
  have ys: "sorted_wrt (\<lambda>a b. ?A a < ?A b) ys" and ys_lt: "\<forall>a\<in>set ys. ?A a < ?A y"
    using Cons.prems(2) by (auto simp: f sorted_wrt_append)
  have yp: "?A y \<le> ?A p" using Cons.prems(4) by (simp add: f)
  have ps: "sorted (map ?A ps)" and p_le: "\<forall>q\<in>set ps. ?A p \<le> ?A q"
    using Cons.prems(3) by auto
  have y_le: "\<forall>q\<in>set ps. ?A y \<le> ?A q" using Cons.prems(4) by (simp add: f)
  show ?case
  proof (cases "\<bar>?A y - ?A p\<bar> < 1 / 10 ^ 9")
    case True
    show ?thesis
    proof (cases "distance_to origin p > distance_to origin y")
      case far: True
      have "sorted_wrt (\<lambda>a b. ?A a < ?A b) (ys @ [p])"
        using ys ys_lt yp by (fastforce simp: sorted_wrt_append)
      then have "sorted_wrt (\<lambda>a b. ?A a < ?A b) (remove_same_angle_loop origin (ys @ [p]) ps)"
        using Cons.IH[of "ys @ [p]"] ps p_le by simp
      then show ?thesis using True far by (simp add: f Let_def)
    next
      case False
      have "sorted_wrt (\<lambda>a b. ?A a < ?A b) (remove_same_angle_loop origin (ys @ [y]) ps)"
        using Cons.IH[of "ys @ [y]"] Cons.prems(2) ps y_le by (simp add: f)
      then show ?thesis using True False by (simp add: f Let_def)
    qed
  next
    case False
    then have "?A y < ?A p" using yp by auto
    then have "sorted_wrt (\<lambda>a b. ?A a < ?A b) (ys @ [y] @ [p])"
      using ys ys_lt by (fastforce simp: sorted_wrt_append)
    then have "sorted_wrt (\<lambda>a b. ?A a < ?A b) (remove_same_angle_loop origin (ys @ [y] @ [p]) ps)"
      using Cons.IH[of "ys @ [y] @ [p]"] ps p_le by simp
    then show ?thesis using False by (simp add: f Let_def)
  qed
qed

lemma remove_same_angle_points_strict:
  assumes "sorted (map (polar_angle origin) pts)"
  shows "sorted_wrt (\<lambda>a b. polar_angle origin a < polar_angle origin b)
           (remove_same_angle_points origin pts)"
proof (cases pts)
  case Nil
  then show ?thesis by (simp add: remove_same_angle_points_def)
next
  case (Cons p ps)
  then show ?thesis
    using assms remove_same_angle_loop_strict[of "[p]" origin ps]
    by (simp add: remove_same_angle_points_def)
qed

lemma sorted_angle_of_sort_key:
  "sorted (map (polar_angle s) (sort_key (\<lambda>p. (polar_angle s p, distance_to s p)) xs))"
proof -
  have "sorted (map (\<lambda>p. (polar_angle s p, distance_to s p))
          (sort_key (\<lambda>p. (polar_angle s p, distance_to s p)) xs))"
    by (rule sorted_sort_key)
  then show ?thesis
    by (simp add: sorted_map sorted_wrt_iff_nth_less less_eq_prod_def) (meson order_less_imp_le)
qed

section \<open>The scan\<close>

lemma pop_while_prefix: "\<exists>zs. h = pop_while h p @ zs"
proof (induction h p rule: pop_while.induct)
  case (1 h p)
  show ?case
  proof (cases "length h > 1 \<and> \<not> ccw (h ! (length h - 2)) (last h) p")
    case True
    then have ne: "h \<noteq> []" by auto
    from 1[OF True] obtain zs where "butlast h = pop_while (butlast h) p @ zs" by blast
    then have "h = pop_while (butlast h) p @ (zs @ [last h])"
      using append_butlast_last_id[OF ne] by (metis append_assoc)
    then show ?thesis using True by (subst pop_while.simps) auto
  next
    case False
    then show ?thesis by (subst pop_while.simps) auto
  qed
qed

lemma pop_while_nonempty: "h \<noteq> [] \<Longrightarrow> pop_while h p \<noteq> []"
proof (induction h p rule: pop_while.induct)
  case (1 h p)
  show ?case
  proof (cases "length h > 1 \<and> \<not> ccw (h ! (length h - 2)) (last h) p")
    case True
    then have "butlast h \<noteq> []" by (cases h rule: rev_cases) auto
    then show ?thesis using 1(1)[OF True] True by (subst pop_while.simps) auto
  next
    case False
    then show ?thesis using 1(2) by (subst pop_while.simps) auto
  qed
qed

lemma pop_while_exit:
  "length (pop_while h p) \<le> 1
   \<or> ccw (pop_while h p ! (length (pop_while h p) - 2)) (last (pop_while h p)) p"
proof (induction h p rule: pop_while.induct)
  case (1 h p)
  show ?case
  proof (cases "length h > 1 \<and> \<not> ccw (h ! (length h - 2)) (last h) p")
    case True
    have "pop_while h p = pop_while (butlast h) p" using True pop_while.simps[of h p] by simp
    then show ?thesis using 1[OF True] by simp
  next
    case False
    have "pop_while h p = h" using False pop_while.simps[of h p] by auto
    then show ?thesis using False by auto
  qed
qed

lemma pop_while_Cons: "\<exists>t zs. pop_while (s # t0) p = s # t \<and> t0 = t @ zs"
proof -
  obtain zs where zs: "s # t0 = pop_while (s # t0) p @ zs" using pop_while_prefix by blast
  have "pop_while (s # t0) p \<noteq> []" by (rule pop_while_nonempty) simp
  then obtain a t where at: "pop_while (s # t0) p = a # t" by (cases "pop_while (s # t0) p") auto
  with zs have "a = s" "t0 = t @ zs" by auto
  with at show ?thesis by blast
qed

lemma scan_loop_sorted_wrt:
  "sorted_wrt P (t0 @ ps) \<Longrightarrow>
   \<exists>t. scan_loop (s # t0) ps = s # t \<and> sorted_wrt P t \<and> set t \<subseteq> set t0 \<union> set ps"
proof (induction ps arbitrary: t0)
  case Nil
  then show ?case by simp
next
  case (Cons p ps)
  obtain t1 zs where t1: "pop_while (s # t0) p = s # t1" "t0 = t1 @ zs"
    using pop_while_Cons by blast
  have "sorted_wrt P ((t1 @ [p]) @ ps)"
    using Cons.prems by (auto simp: t1(2) sorted_wrt_append)
  from Cons.IH[OF this] obtain t where
    "scan_loop (s # t1 @ [p]) ps = s # t" "sorted_wrt P t" "set t \<subseteq> set (t1 @ [p]) \<union> set ps"
    by blast
  then show ?case using t1 by auto
qed

lemma turns_prefix:
  assumes "turns (xs @ ys)"
  shows "turns xs"
  unfolding turns_def
proof (intro allI impI)
  fix i assume i: "i + 2 < length xs"
  then have "i + 2 < length (xs @ ys)" by simp
  then have "ccw ((xs @ ys) ! i) ((xs @ ys) ! (i + 1)) ((xs @ ys) ! (i + 2))"
    using assms unfolding turns_def by blast
  then show "ccw (xs ! i) (xs ! (i + 1)) (xs ! (i + 2))"
    using i by (simp add: nth_append)
qed

lemma turns_snoc:
  assumes "turns h" "length h \<le> 1 \<or> ccw (h ! (length h - 2)) (last h) p"
  shows "turns (h @ [p])"
  unfolding turns_def
proof (intro allI impI)
  fix i assume i: "i + 2 < length (h @ [p])"
  show "ccw ((h @ [p]) ! i) ((h @ [p]) ! (i + 1)) ((h @ [p]) ! (i + 2))"
  proof (cases "i + 2 < length h")
    case True
    then show ?thesis using assms(1) by (simp add: turns_def nth_append)
  next
    case False
    with i have eq: "i + 2 = length h" by simp
    then have "h \<noteq> []" "length h - 2 = i" "length h - 1 = i + 1" by auto
    then show ?thesis using assms(2) eq by (simp add: nth_append last_conv_nth)
  qed
qed

lemma scan_loop_turns: "turns h \<Longrightarrow> turns (scan_loop h ps)"
proof (induction ps arbitrary: h)
  case Nil
  then show ?case by simp
next
  case (Cons p ps)
  obtain zs where "h = pop_while h p @ zs" using pop_while_prefix by blast
  then have "turns (pop_while h p)" using Cons.prems turns_prefix by metis
  then have "turns (pop_while h p @ [p])" using pop_while_exit by (rule turns_snoc)
  then show ?case using Cons.IH by simp
qed

section \<open>The result of \<open>graham_scan\<close>\<close>

lemma above_upper: "above s p \<longleftrightarrow> upper (p_x p - p_x s) (p_y p - p_y s)"
  by (auto simp: above_def upper_def)

lemma key_le_above:
  fixes s p :: Point2D
  assumes "(p_y s, p_x s) \<le> (p_y p, p_x p)" "p \<noteq> s"
  shows "above s p"
proof -
  have "p_x p \<noteq> p_x s \<or> p_y p \<noteq> p_y s" using assms(2) by (cases p; cases s) auto
  then show ?thesis using assms(1) by (auto simp: above_def less_eq_prod_def)
qed

lemma polar_angle_less_iff_ccw:
  assumes "above s a" "above s b"
  shows "polar_angle s a < polar_angle s b \<longleftrightarrow> ccw s a b"
proof -
  have "polar_angle s a < polar_angle s b
        \<longleftrightarrow> 0 < (p_x a - p_x s) * (p_y b - p_y s) - (p_y a - p_y s) * (p_x b - p_x s)"
    using atan2_less_iff_cross[of "p_x a - p_x s" "p_y a - p_y s" "p_x b - p_x s" "p_y b - p_y s"]
      assms by (simp add: above_upper polar_angle_def)
  also have "\<dots> \<longleftrightarrow> orientation_val s a b < 0"
    by (simp add: orientation_val_def algebra_simps)
  also have "\<dots> \<longleftrightarrow> ccw s a b"
    by (auto simp: ccw_def orientation_def Let_def)
  finally show ?thesis .
qed

lemma ccw_rotate: "ccw a b c \<Longrightarrow> ccw b c a"
  by (auto simp: ccw_def orientation_def orientation_val_def Let_def algebra_simps split: if_splits)


lemma py_min_pivot: "pts \<noteq> [] \<Longrightarrow> py_min (\<lambda>p. (p_y p, p_x p)) pts = Some (pivot pts)"
  by (cases pts) (simp_all add: py_min_def pivot_def)

lemma pivot_mem: "pts \<noteq> [] \<Longrightarrow> pivot pts \<in> set pts"
  using py_min_loop_mem[of "\<lambda>p. (p_y p, p_x p)" "hd pts" "tl pts"]
  by (cases pts) (simp_all add: pivot_def)

lemma pivot_le: "p \<in> set pts \<Longrightarrow> (p_y (pivot pts), p_x (pivot pts)) \<le> (p_y p, p_x p)"
  using py_min_loop_le[of p "hd pts" "tl pts" "\<lambda>p. (p_y p, p_x p)"]
  by (cases pts) (simp_all add: pivot_def)

lemma candidates_subset: "set (candidates pts) \<subseteq> set pts - {pivot pts}"
proof -
  have "set (candidates pts)
        \<subseteq> set (sort_key (\<lambda>p. (polar_angle (pivot pts) p, distance_to (pivot pts) p))
                 (filter (\<lambda>p. p \<noteq> pivot pts) pts))"
    unfolding candidates_def by (rule remove_same_angle_points_set)
  then show ?thesis by auto
qed

lemma candidates_above: "p \<in> set (candidates pts) \<Longrightarrow> above (pivot pts) p"
  using candidates_subset[of pts] pivot_le[of p pts] key_le_above[of "pivot pts" p] by auto

lemma candidates_strict: "sorted_wrt (angle_lt (pivot pts)) (candidates pts)"
proof -
  have "sorted_wrt (\<lambda>a b. polar_angle (pivot pts) a < polar_angle (pivot pts) b) (candidates pts)"
    unfolding candidates_def
    by (rule remove_same_angle_points_strict) (rule sorted_angle_of_sort_key)
  then show ?thesis unfolding angle_lt_def .
qed

lemma graham_scan_degenerate:
  assumes "points ch \<noteq> []" "length (candidates (points ch)) < 2"
  shows "graham_scan ch = Inr (pivot (points ch) # candidates (points ch), ch)"
  using assms(2) unfolding graham_scan_def py_min_pivot[OF assms(1)] candidates_def
  by (simp add: Let_def)

lemma graham_scan_main:
  assumes "points ch \<noteq> []" "\<not> length (candidates (points ch)) < 2"
  shows "graham_scan ch =
     Inr (scan_loop [pivot (points ch), candidates (points ch) ! 0, candidates (points ch) ! 1]
            (drop 2 (candidates (points ch))),
          ch\<lparr>hull_pts := scan_loop [pivot (points ch), candidates (points ch) ! 0,
                              candidates (points ch) ! 1] (drop 2 (candidates (points ch)))\<rparr>)"
  using assms(2) unfolding graham_scan_def py_min_pivot[OF assms(1)] candidates_def
  by (simp add: Let_def)

lemma graham_scan_result:
  assumes "points ch \<noteq> []"
  shows "\<exists>t ch'. graham_scan ch = Inr (pivot (points ch) # t, ch')
           \<and> sorted_wrt (angle_lt (pivot (points ch))) t
           \<and> set t \<subseteq> set (candidates (points ch))
           \<and> (length (pivot (points ch) # t) < 3 \<or> turns (pivot (points ch) # t))"
proof (cases "length (candidates (points ch)) < 2")
  case True
  then show ?thesis
    using graham_scan_degenerate[OF assms True] candidates_strict[of "points ch"] by auto
next
  case False
  let ?s = "pivot (points ch)"
  from False obtain f0 f1 rest where f: "candidates (points ch) = f0 # f1 # rest"
    by (cases "candidates (points ch)"; cases "tl (candidates (points ch))") auto
  have sw: "sorted_wrt (angle_lt ?s) ([f0, f1] @ rest)"
    using candidates_strict[of "points ch"] by (simp add: f)
  from scan_loop_sorted_wrt[OF sw, of ?s] obtain t where
    t: "scan_loop [?s, f0, f1] rest = ?s # t" "sorted_wrt (angle_lt ?s) t"
       "set t \<subseteq> set (candidates (points ch))"
    by (auto simp: f)
  have "above ?s f0" "above ?s f1" using candidates_above[of _ "points ch"] by (simp_all add: f)
  moreover have "angle_lt ?s f0 f1" using sw by simp
  ultimately have "ccw ?s f0 f1" by (simp add: angle_lt_def polar_angle_less_iff_ccw)
  then have "turns [?s, f0, f1]" by (simp add: turns_def)
  then have "turns (scan_loop [?s, f0, f1] rest)" by (rule scan_loop_turns)
  then have "turns (?s # t)" by (simp add: t(1))
  moreover have "graham_scan ch = Inr (?s # t, ch\<lparr>hull_pts := ?s # t\<rparr>)"
    using graham_scan_main[OF assms False] t(1) by (simp add: f)
  ultimately show ?thesis using t(2,3) by blast
qed

section \<open>Points in the same direction from the pivot\<close>

lemma atan2_eq_iff_cross:
  assumes "upper x1 y1" "upper x2 y2"
  shows "atan2 y1 x1 = atan2 y2 x2 \<longleftrightarrow> x1 * y2 - y1 * x2 = 0"
  using atan2_less_iff_cross[OF assms] atan2_less_iff_cross[OF assms(2,1)]
  by (auto simp: algebra_simps)

lemma parallel_bounds:
  fixes x1 y1 x2 y2 :: real
  assumes u1: "upper x1 y1" and u2: "upper x2 y2"
    and cr: "x1 * y2 = y1 * x2"
    and le: "x1 * x1 + y1 * y1 \<le> x2 * x2 + y2 * y2"
  shows "y1 \<le> y2 \<and> min 0 x2 \<le> x1 \<and> x1 \<le> max 0 x2"
proof -
  have y: "0 \<le> y1" "0 \<le> y2" using u1 u2 by (auto simp: upper_def)
  have n1: "0 < x1 * x1 + y1 * y1"
    using u1 by (auto simp: upper_def add_pos_nonneg add_nonneg_pos)
  have "(x1 * x1 + y1 * y1) * (y2 * y2) = (y1 * y1) * (x2 * x2 + y2 * y2)"
  proof -
    have "(x1 * y2) * (x1 * y2) = (y1 * x2) * (y1 * x2)" using cr by simp
    then show ?thesis by (simp add: algebra_simps)
  qed
  also have "\<dots> \<ge> (y1 * y1) * (x1 * x1 + y1 * y1)"
    using le by (intro mult_left_mono) auto
  finally have "(x1 * x1 + y1 * y1) * (y1 * y1) \<le> (x1 * x1 + y1 * y1) * (y2 * y2)"
    by (simp add: mult.commute)
  then have "y1 * y1 \<le> y2 * y2" using n1 by simp
  then have yy: "y1 \<le> y2" using y
    by (metis abs_le_square_iff abs_of_nonneg power2_eq_square)
  have "(x1 * x1 + y1 * y1) * (x2 * x2) = (x1 * x1) * (x2 * x2 + y2 * y2)"
  proof -
    have "(x1 * y2) * (x1 * y2) = (y1 * x2) * (y1 * x2)" using cr by simp
    then show ?thesis by (simp add: algebra_simps)
  qed
  also have "\<dots> \<ge> (x1 * x1) * (x1 * x1 + y1 * y1)"
    using le by (intro mult_left_mono) auto
  finally have "(x1 * x1 + y1 * y1) * (x1 * x1) \<le> (x1 * x1 + y1 * y1) * (x2 * x2)"
    by (simp add: mult.commute)
  then have "x1 * x1 \<le> x2 * x2" using n1 by simp
  then have xx: "\<bar>x1\<bar> \<le> \<bar>x2\<bar>"
    by (metis abs_le_square_iff power2_eq_square)
  have sg: "0 \<le> x1 * x2"
  proof (cases "y1 = 0 \<or> y2 = 0")
    case True
    then have "y1 = 0 \<and> y2 = 0"
      using cr u1 u2 by (auto simp: upper_def)
    then have "0 < x1" "0 < x2" using u1 u2 by (auto simp: upper_def)
    then show ?thesis by simp
  next
    case False
    then have p: "0 < y1 * y2" using y by simp
    have "(x1 * x2) * (y1 * y2) = (x1 * y2) * (y1 * x2)" by (simp add: algebra_simps)
    also have "\<dots> = (y1 * x2) * (y1 * x2)" by (simp only: cr)
    finally have "0 \<le> (x1 * x2) * (y1 * y2)" by (simp only: zero_le_square)
    then show ?thesis using p by (simp add: zero_le_mult_iff)
  qed
  have "min 0 x2 \<le> x1 \<and> x1 \<le> max 0 x2"
  proof (cases "0 \<le> x2")
    case True
    have "0 \<le> x1"
    proof (rule ccontr)
      assume "\<not> 0 \<le> x1"
      then have "x1 < 0" by simp
      moreover have "x2 \<noteq> 0" using xx \<open>x1 < 0\<close> by auto
      ultimately have "x1 * x2 < 0" using True by (simp add: mult_neg_pos)
      then show False using sg by simp
    qed
    then show ?thesis using xx True by auto
  next
    case False
    then have x2: "x2 < 0" by simp
    have "x1 \<le> 0"
    proof (rule ccontr)
      assume "\<not> x1 \<le> 0"
      then have "x1 * x2 < 0" using x2 by (simp add: mult_pos_neg)
      then show False using sg by simp
    qed
    then show ?thesis using xx x2 by auto
  qed
  then show ?thesis using yy by simp
qed

lemma polar_angle_eq_iff:
  assumes "above s a" "above s b"
  shows "polar_angle s a = polar_angle s b \<longleftrightarrow> orientation s a b = Collinear"
proof -
  have "polar_angle s a = polar_angle s b
        \<longleftrightarrow> (p_x a - p_x s) * (p_y b - p_y s) - (p_y a - p_y s) * (p_x b - p_x s) = 0"
    using atan2_eq_iff_cross[of "p_x a - p_x s" "p_y a - p_y s" "p_x b - p_x s" "p_y b - p_y s"]
      assms by (simp add: above_upper polar_angle_def)
  also have "\<dots> \<longleftrightarrow> orientation_val s a b = 0"
    by (auto simp: orientation_val_def algebra_simps)
  also have "\<dots> \<longleftrightarrow> orientation s a b = Collinear"
    by (auto simp: orientation_def Let_def Collinear_def)
  finally show ?thesis .
qed

lemma distance_to_le_iff:
  "distance_to s a \<le> distance_to s b \<longleftrightarrow>
   (p_x a - p_x s) * (p_x a - p_x s) + (p_y a - p_y s) * (p_y a - p_y s)
   \<le> (p_x b - p_x s) * (p_x b - p_x s) + (p_y b - p_y s) * (p_y b - p_y s)"
  by (simp add: distance_to_def Let_def algebra_simps)

lemma same_ray_bounds:
  assumes "above s p" "above s m" "polar_angle s p = polar_angle s m"
    and "distance_to s p \<le> distance_to s m"
  shows "p_y p \<le> p_y m \<and> min (p_x s) (p_x m) \<le> p_x p \<and> p_x p \<le> max (p_x s) (p_x m)"
proof -
  have cr: "(p_x p - p_x s) * (p_y m - p_y s) = (p_y p - p_y s) * (p_x m - p_x s)"
    using atan2_eq_iff_cross[of "p_x p - p_x s" "p_y p - p_y s" "p_x m - p_x s" "p_y m - p_y s"]
      assms(1,2,3) by (simp add: above_upper polar_angle_def)
  from parallel_bounds[OF assms(1,2)[unfolded above_upper] cr
      assms(4)[unfolded distance_to_le_iff]]
  show ?thesis by (auto simp: min_def max_def split: if_splits)
qed

lemma same_ray_on_segment:
  assumes "above s p" "above s m" "polar_angle s p = polar_angle s m"
    and "distance_to s p \<le> distance_to s m"
  shows "on_segment s m p"
proof -
  have "orientation s m p = Collinear"
    using polar_angle_eq_iff[OF assms(2,1)] assms(3) by simp
  moreover have "p_y s \<le> p_y p" "p_y s \<le> p_y m" using assms(1,2) by (auto simp: above_def)
  ultimately show ?thesis using same_ray_bounds[OF assms]
    by (auto simp: on_segment_def)
qed

lemma same_ray_same_point:
  fixes a b :: Point2D
  assumes "above s a" "above s b" "polar_angle s a = polar_angle s b"
    and "distance_to s a = distance_to s b"
  shows "a = b"
proof -
  have 1: "p_y a \<le> p_y b \<and> min (p_x s) (p_x b) \<le> p_x a \<and> p_x a \<le> max (p_x s) (p_x b)"
    using same_ray_bounds[OF assms(1,2,3)] assms(4) by simp
  have 2: "p_y b \<le> p_y a \<and> min (p_x s) (p_x a) \<le> p_x b \<and> p_x b \<le> max (p_x s) (p_x a)"
    using same_ray_bounds[OF assms(2,1)] assms(3,4) by simp
  from 1 2 have "p_y a = p_y b" "p_x a = p_x b" by (auto simp: min_def max_def split: if_splits)
  then show ?thesis by simp
qed

lemma remove_same_angle_loop_one_direction:
  assumes "\<forall>p\<in>set ps. polar_angle origin p = polar_angle origin q"
  shows "\<exists>m. remove_same_angle_loop origin [q] ps = [m] \<and> m \<in> set (q # ps)
           \<and> (\<forall>p\<in>set (q # ps). distance_to origin p \<le> distance_to origin m)"
  using assms
proof (induction ps arbitrary: q)
  case Nil
  then show ?case by simp
next
  case (Cons p ps)
  have eq: "polar_angle origin q = polar_angle origin p" using Cons.prems by simp
  show ?case
  proof (cases "distance_to origin p > distance_to origin q")
    case True
    have "\<forall>r\<in>set ps. polar_angle origin r = polar_angle origin p" using Cons.prems by simp
    from Cons.IH[OF this] obtain m where
      m: "remove_same_angle_loop origin [p] ps = [m]" "m \<in> set (p # ps)"
         "\<forall>r\<in>set (p # ps). distance_to origin r \<le> distance_to origin m" by blast
    have "remove_same_angle_loop origin [q] (p # ps) = [m]"
      using True eq m(1) by simp
    moreover have "distance_to origin q \<le> distance_to origin m" using True m(3) by force
    ultimately show ?thesis using m(2,3) by auto
  next
    case False
    have "\<forall>r\<in>set ps. polar_angle origin r = polar_angle origin q" using Cons.prems by simp
    from Cons.IH[OF this] obtain m where
      m: "remove_same_angle_loop origin [q] ps = [m]" "m \<in> set (q # ps)"
         "\<forall>r\<in>set (q # ps). distance_to origin r \<le> distance_to origin m" by blast
    have "remove_same_angle_loop origin [q] (p # ps) = [m]"
      using False eq m(1) by simp
    moreover have "distance_to origin p \<le> distance_to origin m" using False m(3) by force
    ultimately show ?thesis using m(2,3) by auto
  qed
qed

section \<open>Concrete evaluations\<close>


lemma init_square: "init square = Inr \<lparr>points = square, hull_pts = []\<rparr>"
  by (simp add: init_def square_def)

lemma graham_scan_triangle:
  "graham_scan \<lparr>points = triangle, hull_pts = []\<rparr>
   = Inr (triangle, \<lparr>points = triangle, hull_pts = triangle\<rparr>)"
  using pi_ge_two
  by (simp add: graham_scan_def py_min_def pt_def polar_angle_def atan2_def distance_to_def
      remove_same_angle_points_def Let_def less_eq_prod_def less_prod_def triangle_def)

lemma graham_scan_square:
  "graham_scan \<lparr>points = square, hull_pts = []\<rparr>
   = Inr (square_hull, \<lparr>points = square, hull_pts = square_hull\<rparr>)"
  using pi_ge_two arctan_one
  apply (simp add: graham_scan_def py_min_def pt_def polar_angle_def atan2_def distance_to_def
      remove_same_angle_points_def Let_def less_eq_prod_def less_prod_def square_def
      square_hull_def)
  apply (simp add: pop_while.simps ccw_def orientation_def orientation_val_def)
  done

section \<open>Properties of the hull\<close>

lemma closed_turns:
  assumes tu: "turns (s # t)" and sw: "sorted_wrt (ccw s) t" and len: "3 \<le> length (s # t)"
    and i: "i < length (s # t)"
  shows "ccw ((s # t) ! i) ((s # t) ! ((i + 1) mod length (s # t)))
           ((s # t) ! ((i + 2) mod length (s # t)))"
proof -
  let ?h = "s # t"
  let ?n = "length ?h"
  consider "i + 2 < ?n" | "i + 2 = ?n" | "i + 1 = ?n" using i by linarith
  then show ?thesis
  proof cases
    case 1
    then show ?thesis using tu by (simp add: turns_def)
  next
    case 2
    then have lt: "length t = i + 1" "i \<ge> 1" using len by auto
    then obtain j where j: "i = Suc j" by (cases i) auto
    have "ccw s (t ! j) (t ! Suc j)"
      using sw lt j by (simp add: sorted_wrt_iff_nth_less)
    then have "ccw (t ! j) (t ! Suc j) s" by (rule ccw_rotate)
    then show ?thesis using 2 j lt by simp
  next
    case 3
    then have lt: "length t = i" "i \<ge> 2" using len by auto
    then obtain j where j: "i = Suc j" "0 < j" by (cases i) auto
    have "ccw s (t ! 0) (t ! j)"
      using sw lt j by (simp add: sorted_wrt_iff_nth_less)
    then have "ccw (t ! j) s (t ! 0)" using ccw_rotate by blast
    then show ?thesis using 3 j lt by (simp add: mod_Suc)
  qed
qed


lemma tail_ccw:
  assumes "sorted_wrt (angle_lt (pivot pts)) t" "set t \<subseteq> set (candidates pts)"
  shows "sorted_wrt (ccw (pivot pts)) t"
proof (rule sorted_wrt_mono_rel[OF _ assms(1)])
  fix a b assume "a \<in> set t" "b \<in> set t" "angle_lt (pivot pts) a b"
  then show "ccw (pivot pts) a b"
    using assms(2) candidates_above[of a pts] candidates_above[of b pts]
      polar_angle_less_iff_ccw[of "pivot pts" a b]
    by (auto simp: angle_lt_def)
qed

lemma tail_distinct:
  assumes "sorted_wrt (angle_lt s) t"
  shows "distinct t"
proof -
  have "sorted_wrt (\<lambda>a b. a \<noteq> b) t"
    by (rule sorted_wrt_mono_rel[OF _ assms]) (auto simp: angle_lt_def)
  then show ?thesis by (simp add: distinct_conv_nth sorted_wrt_iff_nth_less) (metis nat_neq_iff)
qed


text \<open>
  C4: for an input of at least 3 points the engine is constructed, \<open>graham_scan\<close> returns,
  and the first vertex of the hull it returns is an input point of least y, and of least x
  among the input points of that y; being the head of the hull, it is one of its vertices.
\<close>

theorem graham_scan_starts_at_lowest:
  assumes "3 \<le> length pts"
  shows "\<exists>ch h ch'. init pts = Inr ch \<and> graham_scan ch = Inr (h, ch') \<and> h \<noteq> []
           \<and> hd h \<in> set pts
           \<and> (\<forall>p\<in>set pts. p_y (hd h) < p_y p \<or> (p_y (hd h) = p_y p \<and> p_x (hd h) \<le> p_x p))"
proof -
  let ?ch = "\<lparr>points = pts, hull_pts = []\<rparr>"
  have ne: "pts \<noteq> []" using assms by auto
  then have "points ?ch \<noteq> []" by simp
  from graham_scan_result[OF this] obtain t ch' where
    g: "graham_scan ?ch = Inr (pivot pts # t, ch')" by auto
  have "\<forall>p\<in>set pts. p_y (pivot pts) < p_y p \<or> (p_y (pivot pts) = p_y p \<and> p_x (pivot pts) \<le> p_x p)"
  proof
    fix p assume "p \<in> set pts"
    from pivot_le[OF this] show "p_y (pivot pts) < p_y p \<or> (p_y (pivot pts) = p_y p \<and> p_x (pivot pts) \<le> p_x p)"
      by (auto simp: less_eq_prod_def)
  qed
  then show ?thesis using g pivot_mem[OF ne] init_ok[OF assms] by auto
qed

theorem graham_scan_starts_at_lowest_witness:
  "3 \<le> length square
   \<and> (\<exists>ch ch'. init square = Inr ch \<and> graham_scan ch = Inr (square_hull, ch')
         \<and> hd square_hull = pt 0 0 \<and> hd square_hull \<in> set square
         \<and> (\<forall>p\<in>set square. p_y (hd square_hull) < p_y p
               \<or> (p_y (hd square_hull) = p_y p \<and> p_x (hd square_hull) \<le> p_x p)))"
  using graham_scan_starts_at_lowest[of square] graham_scan_square init_square
  by (auto simp: square_def square_hull_def)

text \<open>
  C5: for an input of at least 3 points, every vertex of the hull \<open>graham_scan\<close> returns is
  one of the input points.
\<close>

theorem graham_scan_subset:
  assumes "3 \<le> length pts"
  shows "\<exists>ch h ch'. init pts = Inr ch \<and> graham_scan ch = Inr (h, ch') \<and> set h \<subseteq> set pts"
proof -
  let ?ch = "\<lparr>points = pts, hull_pts = []\<rparr>"
  have ne: "pts \<noteq> []" using assms by auto
  then have "points ?ch \<noteq> []" by simp
  from graham_scan_result[OF this] obtain t ch' where
    g: "graham_scan ?ch = Inr (pivot pts # t, ch')" "set t \<subseteq> set (candidates pts)" by auto
  then have "set (pivot pts # t) \<subseteq> set pts"
    using pivot_mem[OF ne] candidates_subset[of pts] by auto
  then show ?thesis using g(1) init_ok[OF assms] by blast
qed

theorem graham_scan_subset_witness:
  "3 \<le> length square
   \<and> (\<exists>ch ch'. init square = Inr ch \<and> graham_scan ch = Inr (square_hull, ch')
         \<and> set square_hull \<subseteq> set square)"
  using graham_scan_subset[of square] graham_scan_square init_square
  by (auto simp: square_def)

text \<open>
  C10: for an input of at least 3 points, duplicates included, the vertices of the hull
  \<open>graham_scan\<close> returns are pairwise distinct, and the pivot (its head) occurs in it
  exactly once.
\<close>

theorem graham_scan_distinct:
  assumes "3 \<le> length pts"
  shows "\<exists>ch h ch'. init pts = Inr ch \<and> graham_scan ch = Inr (h, ch') \<and> distinct h
           \<and> count_list h (hd h) = 1"
proof -
  let ?ch = "\<lparr>points = pts, hull_pts = []\<rparr>"
  have ne: "pts \<noteq> []" using assms by auto
  then have "points ?ch \<noteq> []" by simp
  from graham_scan_result[OF this] obtain t ch' where
    g: "graham_scan ?ch = Inr (pivot pts # t, ch')" "sorted_wrt (angle_lt (pivot pts)) t"
       "set t \<subseteq> set (candidates pts)" by auto
  have "distinct t" using g(2) by (rule tail_distinct)
  moreover have st: "pivot pts \<notin> set t" using g(3) candidates_subset[of pts] by auto
  ultimately have "distinct (pivot pts # t)" by simp
  moreover have "count_list (pivot pts # t) (pivot pts) = 1" using st by (simp add: count_list_0_iff)
  ultimately show ?thesis using g(1) init_ok[OF assms] by fastforce
qed

theorem graham_scan_distinct_witness:
  "3 \<le> length square
   \<and> (\<exists>ch ch'. init square = Inr ch \<and> graham_scan ch = Inr (square_hull, ch')
         \<and> distinct square_hull \<and> count_list square_hull (hd square_hull) = 1)"
  using graham_scan_distinct[of square] graham_scan_square init_square
  by (auto simp: square_def)

text \<open>
  In exact arithmetic, for an input of at least 3 points, the hull \<open>graham_scan\<close> returns has fewer than 3
  vertices, or every triple of cyclically consecutive vertices (the two triples through the
  first vertex included) is a counter-clockwise turn: none is clockwise or collinear.
\<close>

theorem graham_scan_convex:
  assumes "3 \<le> length pts"
  shows "\<exists>ch h ch'. init pts = Inr ch \<and> graham_scan ch = Inr (h, ch')
           \<and> (length h < 3
               \<or> (\<forall>i<length h. ccw (h ! i) (h ! ((i + 1) mod length h))
                                   (h ! ((i + 2) mod length h))))"
proof -
  let ?ch = "\<lparr>points = pts, hull_pts = []\<rparr>"
  have ne: "pts \<noteq> []" using assms by auto
  then have "points ?ch \<noteq> []" by simp
  from graham_scan_result[OF this] obtain t ch' where
    g: "graham_scan ?ch = Inr (pivot pts # t, ch')" "sorted_wrt (angle_lt (pivot pts)) t"
       "set t \<subseteq> set (candidates pts)" "length (pivot pts # t) < 3 \<or> turns (pivot pts # t)"
    by auto
  have sw: "sorted_wrt (ccw (pivot pts)) t" using g(2,3) by (rule tail_ccw)
  let ?h = "pivot pts # t"
  have "length ?h < 3
        \<or> (\<forall>i<length ?h. ccw (?h ! i) (?h ! ((i + 1) mod length ?h)) (?h ! ((i + 2) mod length ?h)))"
  proof (cases "length ?h < 3")
    case True
    then show ?thesis by blast
  next
    case False
    then have tu: "turns ?h" and len: "3 \<le> length ?h" using g(4) by auto
    from closed_turns[OF tu sw len] show ?thesis by blast
  qed
  then show ?thesis using g(1) init_ok[OF assms] by blast
qed

theorem graham_scan_convex_witness:
  "3 \<le> length square
   \<and> (\<exists>ch ch'. init square = Inr ch \<and> graham_scan ch = Inr (square_hull, ch')
         \<and> \<not> length square_hull < 3
         \<and> (\<forall>i<length square_hull.
               ccw (square_hull ! i) (square_hull ! ((i + 1) mod length square_hull))
                 (square_hull ! ((i + 2) mod length square_hull))))"
  using graham_scan_convex[of square] graham_scan_square init_square
  by (auto simp: square_def square_hull_def)

section \<open>Collinear inputs and the order of the input, in exact arithmetic\<close>

lemma candidates_collinear:
  assumes "pts \<noteq> []" "all_collinear pts"
  shows "(\<forall>p\<in>set pts. p = pivot pts) \<and> candidates pts = []
         \<or> (\<exists>m. candidates pts = [m] \<and> m \<in> set pts \<and> m \<noteq> pivot pts
                \<and> (\<forall>p\<in>set pts. on_segment (pivot pts) m p))"
proof -
  let ?s = "pivot pts"
  let ?K = "\<lambda>p. (polar_angle ?s p, distance_to ?s p)"
  let ?others = "filter (\<lambda>p. p \<noteq> ?s) pts"
  have s_in: "?s \<in> set pts" using assms(1) by (rule pivot_mem)
  have set_sorted: "set (sort_key ?K ?others) = set pts - {?s}" by auto
  show ?thesis
  proof (cases "sort_key ?K ?others")
    case Nil
    then have "set pts - {?s} = {}" using set_sorted by simp
    then have "\<forall>p\<in>set pts. p = ?s" by auto
    moreover have "candidates pts = []"
      by (simp add: candidates_def Nil remove_same_angle_points_def)
    ultimately show ?thesis by blast
  next
    case (Cons q ps)
    have "set (q # ps) = set (sort_key ?K ?others)" by (simp only: Cons)
    then have set_qps: "set (q # ps) = set pts - {?s}" by (simp only: set_sorted)
    have mem: "p \<in> set pts \<and> p \<noteq> ?s" if "p \<in> set (q # ps)" for p
      using that unfolding set_qps by blast
    have ab: "above ?s p" if "p \<in> set (q # ps)" for p
      using mem[OF that] pivot_le[of p pts] key_le_above[of ?s p] by auto
    have ang: "polar_angle ?s p = polar_angle ?s q" if "p \<in> set (q # ps)" for p
    proof -
      have "p \<in> set pts" "q \<in> set pts" using mem[OF that] mem[of q] by simp_all
      then have "orientation ?s p q = Collinear"
        using assms(2) s_in unfolding all_collinear_def by blast
      then show ?thesis using polar_angle_eq_iff[OF ab[OF that] ab[of q]] by simp
    qed
    have "\<forall>p\<in>set ps. polar_angle ?s p = polar_angle ?s q"
    proof
      fix p assume "p \<in> set ps"
      then have "p \<in> set (q # ps)" by simp
      then show "polar_angle ?s p = polar_angle ?s q" by (rule ang)
    qed
    from remove_same_angle_loop_one_direction[OF this] obtain m where
      m: "remove_same_angle_loop ?s [q] ps = [m]" "m \<in> set (q # ps)"
         "\<forall>p\<in>set (q # ps). distance_to ?s p \<le> distance_to ?s m" by blast
    have c: "candidates pts = [m]"
      by (simp add: candidates_def Cons remove_same_angle_points_def m(1))
    have seg: "on_segment ?s m p" if "p \<in> set pts" for p
    proof (cases "p = ?s")
      case True
      have "m \<in> set pts" using mem[OF m(2)] by simp
      then have "orientation ?s m ?s = Collinear"
        using assms(2) s_in unfolding all_collinear_def by blast
      then show ?thesis by (simp add: on_segment_def True)
    next
      case False
      then have p: "p \<in> set (q # ps)" using that unfolding set_qps by blast
      have "polar_angle ?s p = polar_angle ?s m" using ang[OF p] ang[OF m(2)] by simp
      then show ?thesis
        using same_ray_on_segment[OF ab[OF p] ab[OF m(2)]] m(3) p by blast
    qed
    show ?thesis using c mem[OF m(2)] seg by blast
  qed
qed

lemma graham_scan_diagonal:
  "graham_scan \<lparr>points = diagonal, hull_pts = []\<rparr>
   = Inr ([pt 0 0, pt 2 2], \<lparr>points = diagonal, hull_pts = []\<rparr>)"
  using pi_ge_two
  by (simp add: graham_scan_def py_min_def pt_def polar_angle_def atan2_def distance_to_def
      remove_same_angle_points_def Let_def less_eq_prod_def less_prod_def diagonal_def)

lemma graham_scan_same_point:
  "graham_scan \<lparr>points = same_point, hull_pts = []\<rparr>
   = Inr ([pt 1 1], \<lparr>points = same_point, hull_pts = []\<rparr>)"
  by (simp add: graham_scan_def py_min_def pt_def remove_same_angle_points_def Let_def
      less_eq_prod_def less_prod_def same_point_def)

lemma all_collinear_diagonal: "all_collinear diagonal"
  by (simp add: all_collinear_def diagonal_def pt_def orientation_def orientation_val_def
      Collinear_def)

lemma all_collinear_same_point: "all_collinear same_point"
  by (simp add: all_collinear_def same_point_def pt_def orientation_def orientation_val_def
      Collinear_def)

text \<open>
  In exact arithmetic, for an input of at least 3 points that all lie on one line, \<open>graham_scan\<close> returns,
  and the hull is the single point when all input points are equal, and otherwise two
  different input points such that every input point lies on the segment between them.
\<close>

theorem graham_scan_collinear:
  assumes "3 \<le> length pts" "all_collinear pts"
  shows "\<exists>ch h ch'. init pts = Inr ch \<and> graham_scan ch = Inr (h, ch')
           \<and> ((\<forall>p\<in>set pts. p = hd pts) \<and> h = [hd pts]
               \<or> (\<exists>a b. h = [a, b] \<and> a \<noteq> b \<and> a \<in> set pts \<and> b \<in> set pts
                      \<and> (\<forall>p\<in>set pts. on_segment a b p)))"
proof -
  let ?ch = "\<lparr>points = pts, hull_pts = []\<rparr>"
  have ne: "pts \<noteq> []" using assms(1) by auto
  then have ne': "points ?ch \<noteq> []" by simp
  from candidates_collinear[OF ne assms(2)] show ?thesis
  proof
    assume a: "(\<forall>p\<in>set pts. p = pivot pts) \<and> candidates pts = []"
    then have "graham_scan ?ch = Inr ([pivot pts], ?ch)"
      using graham_scan_degenerate[OF ne'] by simp
    moreover have "hd pts = pivot pts" using a ne by (cases pts) auto
    ultimately show ?thesis using a init_ok[OF assms(1)] by auto
  next
    assume "\<exists>m. candidates pts = [m] \<and> m \<in> set pts \<and> m \<noteq> pivot pts
                \<and> (\<forall>p\<in>set pts. on_segment (pivot pts) m p)"
    then obtain m where m: "candidates pts = [m]" "m \<in> set pts" "m \<noteq> pivot pts"
      "\<forall>p\<in>set pts. on_segment (pivot pts) m p" by blast
    have g: "graham_scan ?ch = Inr ([pivot pts, m], ?ch)"
      using graham_scan_degenerate[OF ne'] m(1) by simp
    have "[pivot pts, m] = [pivot pts, m] \<and> pivot pts \<noteq> m \<and> pivot pts \<in> set pts
          \<and> m \<in> set pts \<and> (\<forall>p\<in>set pts. on_segment (pivot pts) m p)"
      using m pivot_mem[OF ne] by simp
    then have "\<exists>a b. [pivot pts, m] = [a, b] \<and> a \<noteq> b \<and> a \<in> set pts \<and> b \<in> set pts
                 \<and> (\<forall>p\<in>set pts. on_segment a b p)"
      by (intro exI)
    then show ?thesis using g init_ok[OF assms(1)] by blast
  qed
qed

theorem graham_scan_collinear_witness:
  "3 \<le> length diagonal \<and> all_collinear diagonal
   \<and> (\<exists>ch ch'. init diagonal = Inr ch \<and> graham_scan ch = Inr ([pt 0 0, pt 2 2], ch')
         \<and> pt 0 0 \<noteq> pt 2 2
         \<and> (\<forall>p\<in>set diagonal. on_segment (pt 0 0) (pt 2 2) p))
   \<and> 3 \<le> length same_point \<and> all_collinear same_point
   \<and> (\<exists>ch ch'. init same_point = Inr ch \<and> graham_scan ch = Inr ([hd same_point], ch'))"
proof -
  have d: "3 \<le> length diagonal" and s: "3 \<le> length same_point"
    by (simp_all add: diagonal_def same_point_def)
  have "pt 0 0 \<noteq> pt 2 2" by (simp add: pt_def)
  moreover have "\<exists>ch ch'. init diagonal = Inr ch \<and> graham_scan ch = Inr ([pt 0 0, pt 2 2], ch')
         \<and> (\<forall>p\<in>set diagonal. on_segment (pt 0 0) (pt 2 2) p)"
    using graham_scan_collinear[OF d all_collinear_diagonal] graham_scan_diagonal init_ok[OF d]
    by auto
  moreover have "\<exists>ch ch'. init same_point = Inr ch \<and> graham_scan ch = Inr ([hd same_point], ch')"
    using graham_scan_collinear[OF s all_collinear_same_point] graham_scan_same_point
      init_ok[OF s]
    by (auto simp: same_point_def)
  ultimately show ?thesis using d s all_collinear_diagonal all_collinear_same_point by blast
qed

lemma pivot_mset:
  assumes "pts \<noteq> []" "mset pts' = mset pts"
  shows "pivot pts' = pivot pts"
proof -
  have s: "set pts' = set pts" using assms(2) by (rule mset_eq_setD)
  then have ne': "pts' \<noteq> []" using assms(1) by auto
  have "(p_y (pivot pts), p_x (pivot pts)) \<le> (p_y (pivot pts'), p_x (pivot pts'))"
    using pivot_le[of "pivot pts'" pts] pivot_mem[OF ne'] s by simp
  moreover have "(p_y (pivot pts'), p_x (pivot pts')) \<le> (p_y (pivot pts), p_x (pivot pts))"
    using pivot_le[of "pivot pts" pts'] pivot_mem[OF assms(1)] s by simp
  ultimately have "(p_y (pivot pts'), p_x (pivot pts')) = (p_y (pivot pts), p_x (pivot pts))"
    by (rule antisym[rotated])
  then show ?thesis by simp
qed

lemma candidates_mset:
  assumes "pts \<noteq> []" "mset pts' = mset pts"
  shows "candidates pts' = candidates pts"
proof -
  let ?s = "pivot pts"
  let ?K = "\<lambda>p. (polar_angle ?s p, distance_to ?s p)"
  let ?others = "filter (\<lambda>p. p \<noteq> ?s) pts"
  let ?others' = "filter (\<lambda>p. p \<noteq> ?s) pts'"
  have s: "set pts' = set pts" using assms(2) by (rule mset_eq_setD)
  have "mset ?others' = mset (sort_key ?K ?others)" using assms(2) by simp
  moreover have "inj_on ?K (set ?others')"
  proof (rule inj_onI)
    fix a b assume a: "a \<in> set ?others'" and b: "b \<in> set ?others'" and k: "?K a = ?K b"
    have "above ?s a" using a s pivot_le[of a pts] key_le_above[of ?s a] by auto
    moreover have "above ?s b" using b s pivot_le[of b pts] key_le_above[of ?s b] by auto
    ultimately show "a = b" using k same_ray_same_point[of ?s a b] by simp
  qed
  moreover have "sorted (map ?K (sort_key ?K ?others))" by (rule sorted_sort_key)
  ultimately have "sort_key ?K ?others' = sort_key ?K ?others" by (rule sort_key_inj_key_eq)
  then show ?thesis by (simp add: candidates_def pivot_mset[OF assms])
qed

text \<open>
  In exact arithmetic, for an input of at least 3 points and any permutation of it, the two engines are
  constructed and \<open>graham_scan\<close> returns the same list of vertices on both.
\<close>

theorem graham_scan_permutation:
  assumes "3 \<le> length pts" "mset pts' = mset pts"
  shows "\<exists>ch1 ch2 h ch1' ch2'. init pts = Inr ch1 \<and> init pts' = Inr ch2
           \<and> graham_scan ch1 = Inr (h, ch1') \<and> graham_scan ch2 = Inr (h, ch2')"
proof -
  let ?ch1 = "\<lparr>points = pts, hull_pts = []\<rparr>"
  let ?ch2 = "\<lparr>points = pts', hull_pts = []\<rparr>"
  have ne: "pts \<noteq> []" using assms(1) by auto
  have len: "3 \<le> length pts'" using assms mset_eq_length[OF assms(2)] by simp
  then have ne2: "points ?ch2 \<noteq> []" by auto
  have ne1: "points ?ch1 \<noteq> []" using ne by simp
  have p: "pivot pts' = pivot pts" and c: "candidates pts' = candidates pts"
    using pivot_mset[OF ne assms(2)] candidates_mset[OF ne assms(2)] by simp_all
  have "\<exists>h ch1' ch2'. graham_scan ?ch1 = Inr (h, ch1') \<and> graham_scan ?ch2 = Inr (h, ch2')"
  proof (cases "length (candidates pts) < 2")
    case True
    then show ?thesis
      using graham_scan_degenerate[OF ne1] graham_scan_degenerate[OF ne2] p c by simp
  next
    case False
    then show ?thesis
      using graham_scan_main[OF ne1] graham_scan_main[OF ne2] p c by simp
  qed
  then show ?thesis using init_ok[OF assms(1)] init_ok[OF len] by blast
qed

theorem graham_scan_permutation_witness:
  "3 \<le> length square \<and> mset (rev square) = mset square
   \<and> (\<exists>ch1' ch2'.
         init square = Inr \<lparr>points = square, hull_pts = []\<rparr>
         \<and> init (rev square) = Inr \<lparr>points = rev square, hull_pts = []\<rparr>
         \<and> graham_scan \<lparr>points = square, hull_pts = []\<rparr> = Inr (square_hull, ch1')
         \<and> graham_scan \<lparr>points = rev square, hull_pts = []\<rparr> = Inr (square_hull, ch2'))"
proof -
  have l: "3 \<le> length square" by (simp add: square_def)
  have m: "mset (rev square) = mset square" by simp
  have l': "3 \<le> length (rev square)" using l by simp
  from graham_scan_permutation[OF l m] show ?thesis
    using graham_scan_square init_ok[OF l] init_ok[OF l'] l by auto
qed

section \<open>The engine: construction and metrics\<close>

text \<open>
  C6: constructing the engine fails, with the \<open>ValueError\<close> of \<open>__init__\<close>, exactly when the
  list has fewer than 3 points, duplicates counted. Otherwise the engine holds the list as
  given, with an empty hull, and the later call of \<open>graham_scan\<close> returns a hull: no failure
  is left for later.
\<close>

theorem init_fails_iff_too_few:
  "(init pts = Inl TooFewPoints \<longleftrightarrow> length pts < 3)
   \<and> ((\<exists>e. init pts = Inl e) \<longleftrightarrow> length pts < 3)
   \<and> (3 \<le> length pts \<longrightarrow>
        init pts = Inr \<lparr>points = pts, hull_pts = []\<rparr>
        \<and> (\<exists>h ch'. graham_scan \<lparr>points = pts, hull_pts = []\<rparr> = Inr (h, ch')))"
proof -
  have "\<exists>h ch'. graham_scan \<lparr>points = pts, hull_pts = []\<rparr> = Inr (h, ch')"
    if "3 \<le> length pts"
  proof -
    from that have "points \<lparr>points = pts, hull_pts = []\<rparr> \<noteq> []" by auto
    from graham_scan_result[OF this] show ?thesis by blast
  qed
  then show ?thesis by (auto simp: init_def)
qed

theorem init_fails_iff_too_few_witness:
  "length [pt 0 0, pt 1 1] < 3 \<and> init [pt 0 0, pt 1 1] = Inl TooFewPoints
   \<and> 3 \<le> length triangle \<and> init triangle = Inr \<lparr>points = triangle, hull_pts = []\<rparr>
   \<and> (\<exists>h ch'. graham_scan \<lparr>points = triangle, hull_pts = []\<rparr> = Inr (h, ch'))"
  using init_fails_iff_too_few[of "[pt 0 0, pt 1 1]"] init_fails_iff_too_few[of triangle]
  by (simp add: triangle_def)










section \<open>The primitives on doubles at rounding, overflow and underflow\<close>

lemma pow2_powr: "pow2 k = 2 powr (of_int k)"
  by (simp add: pow2_def powr_real_of_int inverse_eq_divide)

lemma pow2_pos [simp]: "0 < pow2 k"
  by (simp add: pow2_powr)

lemma pow2_nz [simp]: "pow2 k \<noteq> 0"
  using pow2_pos[of k] by linarith

lemma pow2_add: "pow2 (a + b) = pow2 a * pow2 b"
  by (simp add: pow2_powr powr_add)

lemma pow2_mono: "a \<le> b \<Longrightarrow> pow2 a \<le> pow2 b"
  by (simp add: pow2_powr)

lemma pow2_nat: "0 \<le> k \<Longrightarrow> pow2 k = of_int (2 ^ nat k)"
  by (simp add: pow2_def)

lemma floor_log2_bounds:
  assumes "0 < x"
  shows "pow2 \<lfloor>log 2 x\<rfloor> \<le> x" "x < pow2 (\<lfloor>log 2 x\<rfloor> + 1)"
proof -
  have "of_int \<lfloor>log 2 x\<rfloor> \<le> log 2 x" by simp
  then have "2 powr (of_int \<lfloor>log 2 x\<rfloor>) \<le> 2 powr (log 2 x)" by simp
  then show "pow2 \<lfloor>log 2 x\<rfloor> \<le> x" using assms by (simp add: pow2_powr)
  have "log 2 x < of_int (\<lfloor>log 2 x\<rfloor> + 1)" by linarith
  then have "2 powr (log 2 x) < 2 powr (of_int (\<lfloor>log 2 x\<rfloor> + 1))" by simp
  then show "x < pow2 (\<lfloor>log 2 x\<rfloor> + 1)" using assms by (simp add: pow2_powr)
qed

lemma floor_log2_eqI:
  assumes "pow2 n \<le> x" "x < pow2 (n + 1)"
  shows "\<lfloor>log 2 x\<rfloor> = n"
proof -
  have x: "0 < x" using assms(1) pow2_pos[of n] by linarith
  have "2 powr (of_int n) \<le> 2 powr (log 2 x)" using assms(1) x by (simp add: pow2_powr)
  then have 1: "of_int n \<le> log 2 x" by simp
  have "2 powr (log 2 x) < 2 powr (of_int (n + 1))" using assms(2) x by (simp add: pow2_powr)
  then have 2: "log 2 x < of_int (n + 1)" by simp
  from 1 2 show ?thesis by linarith
qed

lemma rint_of_int [simp]: "rint (of_int n) = n"
  by (simp add: rint_def)

lemma rint_0 [simp]: "rint 0 = 0"
  by (simp add: rint_def)

lemma nearest_exact:
  assumes m: "\<bar>m\<bar> < 2 ^ 53" and k: "- 1074 \<le> k"
  shows "nearest (of_int m * pow2 k) = of_int m * pow2 k"
proof (cases "m = 0")
  case True
  then show ?thesis by (simp add: nearest_def)
next
  case False
  let ?r = "of_int m * pow2 k :: real"
  have "\<bar>pow2 k\<bar> = pow2 k" using pow2_pos[of k] by linarith
  then have r: "\<bar>?r\<bar> = of_int \<bar>m\<bar> * pow2 k" by (simp add: abs_mult)
  have rpos: "0 < \<bar>?r\<bar>" using False by simp
  have "of_int \<bar>m\<bar> < (2 ^ 53 :: real)" using m by (metis of_int_less_iff of_int_numeral of_int_power)
  then have "\<bar>?r\<bar> < 2 ^ 53 * pow2 k" unfolding r by simp
  also have "\<dots> = pow2 (53 + k)"
  proof -
    have "(2 ^ 53 :: real) = pow2 53" by (simp add: pow2_def)
    then show ?thesis by (simp only: pow2_add)
  qed
  finally have lt: "\<bar>?r\<bar> < pow2 (53 + k)" .
  have "pow2 \<lfloor>log 2 \<bar>?r\<bar>\<rfloor> < pow2 (53 + k)"
    using floor_log2_bounds(1)[OF rpos] lt by linarith
  then have "\<lfloor>log 2 \<bar>?r\<bar>\<rfloor> < 53 + k"
    by (simp add: pow2_powr)
  then have b: "binade ?r - 52 \<le> k" using k by (simp add: binade_def)
  define j where "j = k - (binade ?r - 52)"
  have j: "0 \<le> j" "k = j + (binade ?r - 52)" using b by (simp_all add: j_def)
  have "?r / pow2 (binade ?r - 52) = of_int m * pow2 j"
    by (subst j(2)) (simp add: pow2_add)
  also have "\<dots> = of_int (m * 2 ^ nat j)" using j(1) by (simp add: pow2_nat)
  finally have "rint (?r / pow2 (binade ?r - 52)) = m * 2 ^ nat j" by (simp only: rint_of_int)
  then have "nearest ?r = of_int (m * 2 ^ nat j) * pow2 (binade ?r - 52)"
    by (simp add: nearest_def Let_def)
  also have "\<dots> = of_int m * (pow2 j * pow2 (binade ?r - 52))"
    using j(1) by (simp add: pow2_nat)
  also have "\<dots> = ?r" by (subst (2) j(2)) (simp add: pow2_add)
  finally show ?thesis .
qed

lemma rnd_exact:
  assumes "\<bar>m\<bar> < 2 ^ 53" "- 1074 \<le> k" "m \<noteq> 0" "\<bar>of_int m * pow2 k\<bar> < (2 ^ 1024 :: real)"
  shows "rnd (of_int m * pow2 k) = Fin (of_int m * pow2 k)"
  using assms by (simp add: rnd_def nearest_exact Let_def)

lemma rnd_overflow:
  assumes "\<bar>m\<bar> < 2 ^ 53" "- 1074 \<le> k" "(2 ^ 1024 :: real) \<le> \<bar>of_int m * pow2 k\<bar>"
  shows "rnd (of_int m * pow2 k) = (if 0 < m then PInf else NInf)"
proof -
  have "\<not> pow2 k < 0" using pow2_pos[of k] by linarith
  then show ?thesis
    using assms by (simp add: rnd_def nearest_exact Let_def zero_less_mult_iff)
qed

lemma rnd_L: "rnd (2 ^ 600) = Fin (2 ^ 600)"
  using rnd_exact[of 1 600] by (simp add: pow2_def)

lemma rnd_mL: "rnd (- (2 ^ 600)) = Fin (- (2 ^ 600))"
  using rnd_exact[of "-1" 600] by (simp add: pow2_def)

lemma rnd_2L: "rnd (2 * 2 ^ 600) = Fin (2 * 2 ^ 600)"
  using rnd_exact[of 2 600] by (simp add: pow2_def)

lemma rnd_m2L: "rnd (- (2 * 2 ^ 600)) = Fin (- (2 * 2 ^ 600))"
  using rnd_exact[of "-2" 600] by (simp add: pow2_def)

lemma rnd_pow2_overflow: "1024 \<le> n \<Longrightarrow> rnd (2 ^ n) = PInf"
proof -
  assume n: "1024 \<le> n"
  have "(2 ^ 1024 :: real) \<le> 2 ^ n" using n by (intro power_increasing) auto
  then show ?thesis using rnd_overflow[of 1 "int n"] by (simp add: pow2_def)
qed

lemma rnd_neg_pow2_overflow: "1024 \<le> n \<Longrightarrow> rnd (- (2 ^ n)) = NInf"
proof -
  assume n: "1024 \<le> n"
  have "(2 ^ 1024 :: real) \<le> 2 ^ n" using n by (intro power_increasing) auto
  then show ?thesis using rnd_overflow[of "-1" "int n"] by (simp add: pow2_def)
qed

lemma rnd_pow2: "n < 1024 \<Longrightarrow> rnd (2 ^ n) = Fin (2 ^ n)"
proof -
  assume n: "n < 1024"
  have "(2 ^ n :: real) < 2 ^ 1024" using n by (intro power_strict_increasing) auto
  then show ?thesis using rnd_exact[of 1 "int n"] by (simp add: pow2_def)
qed

lemma rnd_neg_pow2: "n < 1024 \<Longrightarrow> rnd (- (2 ^ n)) = Fin (- (2 ^ n))"
proof -
  assume n: "n < 1024"
  have "(2 ^ n :: real) < 2 ^ 1024" using n by (intro power_strict_increasing) auto
  then show ?thesis using rnd_exact[of "-1" "int n"] by (simp add: pow2_def)
qed

lemma orientation_f64_overflow:
  "orientation_f64 (fpt 0 0) (fpt (2 ^ 600) (2 ^ 600)) (fpt (2 ^ 601) (2 ^ 601)) = 2"
proof -
  have d: "sub_d (Fin (2 ^ 601)) (Fin (2 ^ 600)) = Fin (2 ^ 600)"
  proof -
    have "(2 ^ 601 :: real) + - (2 ^ 600) = 2 ^ 600" by simp
    then show ?thesis using rnd_pow2[of 600] by (simp add: sub_d_def del: power_numeral)
  qed
  have z: "sub_d (Fin (2 ^ 600)) (Fin 0) = Fin (2 ^ 600)" by (simp add: sub_d_def)
  have m: "mul_d (Fin (2 ^ 600)) (Fin (2 ^ 600)) = PInf"
  proof -
    have "(2 ^ 600 :: real) * 2 ^ 600 = 2 ^ 1200" by (simp add: power_add[symmetric])
    then show ?thesis using rnd_pow2_overflow[of 1200] by (simp add: mul_d_def del: power_numeral)
  qed
  show ?thesis
    by (simp add: orientation_f64_def fpt_def d z m sub_d_def[of PInf PInf] gt_d_def Let_def
        del: power_numeral)
qed

lemma rnd_int: "\<bar>m\<bar> < 2 ^ 53 \<Longrightarrow> m \<noteq> 0 \<Longrightarrow> rnd (of_int m) = Fin (of_int m)"
proof -
  assume m: "\<bar>m\<bar> < 2 ^ 53" "m \<noteq> 0"
  then have "\<bar>of_int m :: real\<bar> < 2 ^ 53"
    by (metis of_int_abs of_int_less_iff of_int_numeral of_int_power)
  also have "(2 ^ 53 :: real) < 2 ^ 1024" by simp
  finally show ?thesis using rnd_exact[of m 0] m by (simp add: pow2_def)
qed

lemma rnd_square_rounds: "rnd 18014398777917441 = Fin 18014398777917440"
proof -
  have "\<lfloor>log 2 (18014398777917441 :: real)\<rfloor> = 54"
    by (rule floor_log2_eqI) (simp_all add: pow2_def)
  then have b: "binade 18014398777917441 = 54" by (simp add: binade_def)
  have "rint (18014398777917441 / 4) = 4503599694479360" by (simp add: rint_def Let_def)
  then have "nearest 18014398777917441 = 18014398777917440"
    by (simp add: nearest_def b pow2_def Let_def)
  then show ?thesis by (simp add: rnd_def Let_def)
qed

lemma orientation_f64_rounding:
  "orientation_f64 (fpt 0 0) (fpt 134217730 134217729) (fpt 268435459 268435457) = 0"
proof -
  have s1: "sub_d (Fin 134217729) (Fin 0) = Fin 134217729"
    and s2: "sub_d (Fin 134217730) (Fin 0) = Fin 134217730"
    by (simp_all add: sub_d_def)
  have s3: "sub_d (Fin 268435459) (Fin 134217730) = Fin 134217729"
    using rnd_int[of 134217729] by (simp add: sub_d_def)
  have s4: "sub_d (Fin 268435457) (Fin 134217729) = Fin 134217728"
    using rnd_int[of 134217728] by (simp add: sub_d_def)
  have m1: "mul_d (Fin 134217729) (Fin 134217729) = Fin 18014398777917440"
    using rnd_square_rounds by (simp add: mul_d_def)
  have m2: "mul_d (Fin 134217730) (Fin 134217728) = Fin 18014398777917440"
  proof -
    have "rnd (of_int 67108865 * pow2 28) = Fin (of_int 67108865 * pow2 28)"
      by (rule rnd_exact) (simp_all add: pow2_def)
    then show ?thesis by (simp add: mul_d_def pow2_def)
  qed
  show ?thesis
    by (simp add: orientation_f64_def fpt_def s1 s2 s3 s4 m1 m2 Let_def)
       (simp add: sub_d_def)
qed

lemma ccw_f64_overflow:
  "ccw_f64 (fpt (4 * 2 ^ 600) (2 ^ 600)) (fpt (2 * 2 ^ 600) (2 * 2 ^ 600))
     (fpt (2 ^ 600) (4 * 2 ^ 600))"
proof -
  have e: "(4 * 2 ^ 600 :: real) = 2 ^ 602" "(2 * 2 ^ 600 :: real) = 2 ^ 601" by simp_all
  have s1: "sub_d (Fin (2 ^ 601)) (Fin (2 ^ 600)) = Fin (2 ^ 600)"
  proof -
    have h: "(2 ^ 601 :: real) - 2 ^ 600 = 2 ^ 600" by simp
    show ?thesis using rnd_pow2[of 600] by (simp add: sub_d_def h del: power_numeral)
  qed
  have s2: "sub_d (Fin (2 ^ 600)) (Fin (2 ^ 601)) = Fin (- (2 ^ 600))"
  proof -
    have h: "(2 ^ 600 :: real) - 2 ^ 601 = - (2 ^ 600)" by simp
    show ?thesis using rnd_neg_pow2[of 600] by (simp add: sub_d_def h del: power_numeral)
  qed
  have s3: "sub_d (Fin (2 ^ 601)) (Fin (2 ^ 602)) = Fin (- (2 ^ 601))"
  proof -
    have h: "(2 ^ 601 :: real) - 2 ^ 602 = - (2 ^ 601)" by simp
    show ?thesis using rnd_neg_pow2[of 601] by (simp add: sub_d_def h del: power_numeral)
  qed
  have s4: "sub_d (Fin (2 ^ 602)) (Fin (2 ^ 601)) = Fin (2 ^ 601)"
  proof -
    have h: "(2 ^ 602 :: real) - 2 ^ 601 = 2 ^ 601" by simp
    show ?thesis using rnd_pow2[of 601] by (simp add: sub_d_def h del: power_numeral)
  qed
  have m1: "mul_d (Fin (2 ^ 600)) (Fin (- (2 ^ 600))) = NInf"
  proof -
    have "(2 ^ 600 :: real) * - (2 ^ 600) = - (2 ^ 1200)" by (simp add: power_add[symmetric])
    then show ?thesis
      using rnd_neg_pow2_overflow[of 1200] by (simp add: mul_d_def del: power_numeral)
  qed
  have m2: "mul_d (Fin (- (2 ^ 601))) (Fin (2 ^ 601)) = NInf"
  proof -
    have "- (2 ^ 601 :: real) * 2 ^ 601 = - (2 ^ 1202)" by (simp add: power_add[symmetric])
    then show ?thesis
      using rnd_neg_pow2_overflow[of 1202] by (simp add: mul_d_def del: power_numeral)
  qed
  show ?thesis
    unfolding e
    by (simp add: ccw_f64_def orientation_f64_def fpt_def s1 s2 s3 s4 m1 m2
        sub_d_def[of NInf NInf] gt_d_def Let_def del: power_numeral)
qed

lemma distance_to_f64_overflow:
  "600 \<le> n \<Longrightarrow> n < 1024 \<Longrightarrow> distance_to_f64 (fpt 0 0) (fpt (2 ^ n) (2 ^ n)) = Some PInf"
proof -
  assume n: "600 \<le> n" "n < 1024"
  have s: "sub_d (Fin 0) (Fin (2 ^ n)) = Fin (- (2 ^ n))"
    using rnd_neg_pow2[OF n(2)] by (simp add: sub_d_def)
  have "(- (2 ^ n) :: real) * - (2 ^ n) = 2 ^ (n + n)" by (simp add: power_add)
  moreover have "rnd (2 ^ (n + n)) = PInf" using n by (intro rnd_pow2_overflow) simp
  ultimately have m: "mul_d (Fin (- (2 ^ n))) (Fin (- (2 ^ n))) = PInf"
    by (simp add: mul_d_def)
  show ?thesis by (simp add: distance_to_f64_def fpt_def s m Let_def)
qed

lemma rnd_underflow: "rnd (1 / 2 ^ 1400) = Fin 0"
proof -
  have "\<lfloor>log 2 (1 / 2 ^ 1400 :: real)\<rfloor> = - 1400"
    by (rule floor_log2_eqI) (simp_all add: pow2_def)
  then have b: "binade (1 / 2 ^ 1400) = - 1022" by (simp add: binade_def del: power_numeral)
  have q: "(1 / 2 ^ 1400 :: real) / pow2 (- 1022 - 52) = 1 / 2 ^ 326"
    by (simp add: pow2_def)
  have "\<lfloor>1 / 2 ^ 326 :: real\<rfloor> = 0" by (simp add: floor_eq_iff)
  then have "rint (1 / 2 ^ 326) = 0" by (simp add: rint_def Let_def)
  then have "nearest (1 / 2 ^ 1400) = 0"
    unfolding nearest_def b q Let_def by (simp del: power_numeral)
  then show ?thesis unfolding rnd_def Let_def by (simp del: power_numeral)
qed

lemma ccw_f64_underflow:
  "\<not> ccw_f64 (fpt 0 0) (fpt (1 / 2 ^ 700) 0) (fpt 0 (1 / 2 ^ 700))"
proof -
  have r: "rnd (- (1 / 2 ^ 700)) = Fin (- (1 / 2 ^ 700))"
    using rnd_exact[of "-1" "-700"] by (simp add: pow2_def)
  have s1: "sub_d (Fin 0) (Fin 0) = Fin 0" by (simp add: sub_d_def)
  have s2: "sub_d (Fin 0) (Fin (1 / 2 ^ 700)) = Fin (- (1 / 2 ^ 700))"
    using r by (simp add: sub_d_def)
  have s3: "sub_d (Fin (1 / 2 ^ 700)) (Fin 0) = Fin (1 / 2 ^ 700)" by (simp add: sub_d_def)
  have m1: "mul_d (Fin 0) (Fin (- (1 / 2 ^ 700))) = NegZero" by (simp add: mul_d_def)
  have "(1 / 2 ^ 700 :: real) * (1 / 2 ^ 700) = 1 / 2 ^ 1400"
    by (simp add: power_add[symmetric])
  then have m2: "mul_d (Fin (1 / 2 ^ 700)) (Fin (1 / 2 ^ 700)) = Fin 0"
    using rnd_underflow by (simp add: mul_d_def del: power_numeral)
  have v: "sub_d NegZero (Fin 0) = NegZero" by (simp add: sub_d_def)
  show ?thesis
    by (simp add: ccw_f64_def orientation_f64_def fpt_def s1 s2 s3 m1 m2 v Let_def
        del: power_numeral)
qed

lemma orientation_exact_values:
  "orientation (pt 0 0) (pt (2 ^ 600) (2 ^ 600)) (pt (2 ^ 601) (2 ^ 601)) = 0"
  "orientation (pt 0 0) (pt 134217730 134217729) (pt 268435459 268435457) = 1"
  "orientation (pt (4 * 2 ^ 600) (2 ^ 600)) (pt (2 * 2 ^ 600) (2 * 2 ^ 600))
     (pt (2 ^ 600) (4 * 2 ^ 600)) = 1"
  "ccw (pt 0 0) (pt (1 / 2 ^ 700) 0) (pt 0 (1 / 2 ^ 700))"
  by (simp_all add: ccw_def orientation_def orientation_val_def pt_def Let_def)

lemma distance_exact_order:
  "distance_to (pt 0 0) (pt (2 ^ 600) (2 ^ 600)) < distance_to (pt 0 0) (pt (2 ^ 601) (2 ^ 601))"
proof -
  have "(2 ^ 600 :: real) * 2 ^ 600 < 2 ^ 601 * 2 ^ 601"
    by (intro mult_strict_mono) simp_all
  then have "(0 - 2 ^ 600) * (0 - 2 ^ 600) + (0 - 2 ^ 600) * (0 - 2 ^ 600)
        < (0 - 2 ^ 601 :: real) * (0 - 2 ^ 601) + (0 - 2 ^ 601) * (0 - 2 ^ 601)"
    by (simp del: power_numeral)
  then show ?thesis
    unfolding distance_to_def pt_def Let_def Point2D.simps
    by (simp only: real_sqrt_less_iff)
qed

text \<open>
  C7: on doubles \<open>orientation\<close> does not classify by the sign of the cross product. On the
  collinear points \<open>(0,0)\<close>, \<open>(L,L)\<close>, \<open>(2L,2L)\<close> with \<open>L = 2 ^ 600\<close> both products overflow,
  the difference is NaN and the result is 2, Counterclockwise. On \<open>(0,0)\<close>,
  \<open>(2 ^ 27 + 2, 2 ^ 27 + 1)\<close>, \<open>(2 ^ 28 + 3, 2 ^ 28 + 1)\<close> the cross product is 1, a
  clockwise turn, but \<open>(2 ^ 27 + 1)\<^sup>2\<close> rounds and the result is 0, Collinear.
\<close>

theorem orientation_f64_misclassifies:
  "orientation_f64 (fpt 0 0) (fpt (2 ^ 600) (2 ^ 600)) (fpt (2 ^ 601) (2 ^ 601))
     = CounterClockwise
   \<and> orientation (pt 0 0) (pt (2 ^ 600) (2 ^ 600)) (pt (2 ^ 601) (2 ^ 601)) = Collinear
   \<and> orientation_f64 (fpt 0 0) (fpt 134217730 134217729) (fpt 268435459 268435457)
     = Collinear
   \<and> orientation (pt 0 0) (pt 134217730 134217729) (pt 268435459 268435457) = Clockwise"
  using orientation_f64_overflow orientation_f64_rounding orientation_exact_values(1,2)
  by (simp only: Collinear_def Clockwise_def CounterClockwise_def simp_thms)

text \<open>
  C3: on doubles the turn test of the scan accepts a clockwise turn. For
  \<open>[(0,0), (4L,L), (2L,2L), (L,4L)]\<close>, \<open>L = 2 ^ 600\<close>, the scan tests the triple
  \<open>(4L,L), (2L,2L), (L,4L)\<close>: both products overflow, \<open>ccw\<close> is true on NaN, and \<open>(2L,2L)\<close>
  stays in the hull although the turn is clockwise. On the corner \<open>(0,0), (2 ^ -700, 0),
  (0, 2 ^ -700)\<close>, a counter-clockwise turn, the product underflows and \<open>ccw\<close> is false.
\<close>

theorem ccw_f64_misjudges_turns:
  "ccw_f64 (fpt (4 * 2 ^ 600) (2 ^ 600)) (fpt (2 * 2 ^ 600) (2 * 2 ^ 600))
     (fpt (2 ^ 600) (4 * 2 ^ 600))
   \<and> orientation (pt (4 * 2 ^ 600) (2 ^ 600)) (pt (2 * 2 ^ 600) (2 * 2 ^ 600))
       (pt (2 ^ 600) (4 * 2 ^ 600)) = Clockwise
   \<and> \<not> ccw_f64 (fpt 0 0) (fpt (1 / 2 ^ 700) 0) (fpt 0 (1 / 2 ^ 700))
   \<and> ccw (pt 0 0) (pt (1 / 2 ^ 700) 0) (pt 0 (1 / 2 ^ 700))"
  using ccw_f64_overflow ccw_f64_underflow orientation_exact_values(3,4)
  by (simp only: Clockwise_def simp_thms)

text \<open>
  C9: on doubles the collapse of equal angles cannot tell the farther point once the
  squared distances overflow. For the collinear input \<open>[(0,0), (A,A), (B,B)]\<close>, \<open>A = 2 ^ 600\<close>,
  \<open>B = 2 ^ 601\<close>, both distances from the pivot are \<open>inf\<close>, so the test
  \<open>distance_to (B,B) > distance_to (A,A)\<close> is false and \<open>(A,A)\<close>, the nearer point, is kept.
\<close>

theorem collapse_test_fails_on_overflow:
  "distance_to_f64 (fpt 0 0) (fpt (2 ^ 600) (2 ^ 600)) = Some PInf
   \<and> distance_to_f64 (fpt 0 0) (fpt (2 ^ 601) (2 ^ 601)) = Some PInf
   \<and> \<not> gt_d PInf PInf
   \<and> distance_to (pt 0 0) (pt (2 ^ 600) (2 ^ 600))
       < distance_to (pt 0 0) (pt (2 ^ 601) (2 ^ 601))"
  using distance_to_f64_overflow[of 600] distance_to_f64_overflow[of 601] distance_exact_order
  by (simp add: gt_d_def del: power_numeral)

text \<open>
  C8: on doubles different points can have the same sort key. For \<open>(A,A)\<close> and \<open>(B,B)\<close>,
  \<open>A = 2 ^ 600\<close>, \<open>B = 2 ^ 601\<close>, in the same direction from the pivot \<open>(0,0)\<close>, the distances are
  both \<open>inf\<close>: neither is less than the other, so the stable sort leaves the two in the
  order of the input, and the hull depends on that order.
\<close>

theorem sort_key_ties_on_overflow:
  "fpt (2 ^ 600) (2 ^ 600) \<noteq> fpt (2 ^ 601) (2 ^ 601)
   \<and> (\<exists>d. distance_to_f64 (fpt 0 0) (fpt (2 ^ 600) (2 ^ 600)) = Some d
          \<and> distance_to_f64 (fpt 0 0) (fpt (2 ^ 601) (2 ^ 601)) = Some d
          \<and> \<not> lt_d d d \<and> eq_d d d)"
proof -
  have "fpt (2 ^ 600) (2 ^ 600) \<noteq> fpt (2 ^ 601) (2 ^ 601)" by (simp add: fpt_def)
  moreover have "\<not> lt_d PInf PInf \<and> eq_d PInf PInf" by simp
  moreover have "distance_to_f64 (fpt 0 0) (fpt (2 ^ 600) (2 ^ 600)) = Some PInf"
    by (rule distance_to_f64_overflow) simp_all
  moreover have "distance_to_f64 (fpt 0 0) (fpt (2 ^ 601) (2 ^ 601)) = Some PInf"
    by (rule distance_to_f64_overflow) simp_all
  ultimately show ?thesis by blast
qed


end
